theory Spec2Isabelle
  imports Main "HOL-Library.Sublist" "HOL-Library.Multiset"
begin

section \<open>Values shared by the readers and the writers\<close>

text \<open>
  Python \<open>bytes\<close> are lists of 8-bit characters, Python integers are unbounded.
\<close>

type_synonym bytes = "char list"

text \<open>
  The \<open>Error\<close> dictionary of a botocore \<open>ClientError\<close> response. Both entries may be
  absent: \<open>error_response.get('Message')\<close> then yields \<open>None\<close> and
  \<open>error_response['ActualObjectSize']\<close> raises \<open>KeyError\<close>. The size hint is kept as
  the integer that \<open>int(...)\<close> reads from it.
\<close>

record error_dict =
  Message :: "string option"
  ActualObjectSize :: "int option"

text \<open>
  What an \<open>IOError\<close> carries: \<open>_get\<close> attaches the \<open>ClientError\<close> as
  \<open>backend_error\<close>, whose \<open>response\<close> may or may not hold an \<open>Error\<close> entry; any
  other \<open>IOError\<close> has no such attribute.
\<close>

datatype backend = NoBackend | Backend "error_dict option"

datatype exn =
    ValueError
  | AssertionError
  | NotImplementedError
  | UnsupportedOperation
  | IOError backend
  | ClientError "error_dict option"
  | EndpointConnectionError
  | IncompleteReadError
  | KeyError
  | AttributeError
  | TypeError

definition OUT_OF_RANGE :: string where
  "OUT_OF_RANGE = ''Requested Range Not Satisfiable''"

text \<open>
  Modelled from the spec: the module \<open>smart_open.constants\<close> is not part of the source
  at hand. The spec names the three POSIX whence values START, CURRENT and END; they are
  given the POSIX numbers here.
\<close>

definition WHENCE_START :: int where "WHENCE_START = 0"
definition WHENCE_CURRENT :: int where "WHENCE_CURRENT = 1"
definition WHENCE_END :: int where "WHENCE_END = 2"
definition WHENCE_CHOICES :: "int list" where
  "WHENCE_CHOICES = [WHENCE_START, WHENCE_CURRENT, WHENCE_END]"

section \<open>The object store as seen by the reader\<close>

text \<open>
  A response body is a stream owned by whoever received it. \<open>Stream xs c\<close> still delivers
  the bytes \<open>xs\<close>; when \<open>c\<close> holds the peer closes the connection after them, before the
  announced length is reached, and the stream reports \<open>IncompleteReadError\<close> where it
  checks the length: on \<open>read()\<close>, and on a \<open>read(n)\<close> with a positive \<open>n\<close> that gets
  nothing. A \<open>read(n)\<close> with a negative \<open>n\<close> returns what there is without that check.
  \<open>io.BytesIO()\<close> is the empty stream that ends cleanly.
\<close>

datatype body = Stream (pending: bytes) (cut: bool)

definition BytesIO :: body where
  "BytesIO = Stream [] False"

fun stream_read_all :: "body \<Rightarrow> (exn + bytes) \<times> body" where
  "stream_read_all (Stream xs c) =
     (if c then (Inl IncompleteReadError, Stream [] c) else (Inr xs, Stream [] c))"

fun stream_read :: "int \<Rightarrow> body \<Rightarrow> (exn + bytes) \<times> body" where
  "stream_read n (Stream xs c) =
     (if n < 0 then (Inr xs, Stream [] c)
      else if take (nat n) xs = [] \<and> 0 < n \<and> c then (Inl IncompleteReadError, Stream xs c)
      else (Inr (take (nat n) xs), Stream (drop (nat n) xs) c))"

text \<open>
  Modelled from the spec: \<open>smart_open.utils.make_range_string\<close> and
  \<open>smart_open.utils.parse_content_range\<close> are not part of the source at hand. The spec
  gives the request as \<open>start-stop\<close> or the suffix form \<open>-N\<close> and the response as
  \<open>unit start-stop/total\<close>; both are kept in parsed form.
\<close>

datatype range = Range "int option" "int option"

record content_range =
  cr_start :: int
  cr_stop :: int
  cr_length :: int

record response =
  ContentRange :: "content_range option"
  ContentLength :: "int option"
  Body :: body

datatype get_outcome = Returns response | Raises exn

text \<open>
  The store is the environment: \<open>serve s n rq\<close> is its answer to the request \<open>rq\<close> when
  \<open>n\<close> requests were made before, and \<open>requests\<close> records every request made.
\<close>

record store =
  serve :: "nat \<Rightarrow> range option \<Rightarrow> get_outcome"
  requests :: "range option list"

definition s3_object_get :: "range option \<Rightarrow> store \<Rightarrow> get_outcome \<times> store" where
  "s3_object_get rq s = (serve s (length (requests s)) rq, s\<lparr>requests := requests s @ [rq]\<rparr>)"

definition get_s3 :: "range option \<Rightarrow> store \<Rightarrow> (exn + response) \<times> store" where
  "get_s3 rq s =
     (case s3_object_get rq s of
        (Returns resp, s') \<Rightarrow> (Inr resp, s')
      | (Raises (ClientError d), s') \<Rightarrow> (Inl (IOError (Backend d)), s')
      | (Raises e, s') \<Rightarrow> (Inl e, s'))"

fun unwrap_ioerror :: "exn \<Rightarrow> error_dict option" where
  "unwrap_ioerror (IOError (Backend d)) = d"
| "unwrap_ioerror _ = None"

fun is_IOError :: "exn \<Rightarrow> bool" where
  "is_IOError (IOError _) = True"
| "is_IOError _ = False"

section \<open>\<open>_SeekableRawReader\<close>\<close>

record raw_reader =
  content_length :: "int option"
  position :: int
  body :: "body option"

definition raw_init :: raw_reader where
  "raw_init = \<lparr>content_length = None, position = 0, body = None\<rparr>"

definition at_eof :: "int \<Rightarrow> raw_reader \<Rightarrow> raw_reader" where
  "at_eof n r = r\<lparr>position := n, content_length := Some n, body := Some BytesIO\<rparr>"

definition range_string :: "int option \<Rightarrow> int option \<Rightarrow> raw_reader \<Rightarrow> range" where
  "range_string start stop r =
     (let start' = (if start = None \<and> stop = None then Some (position r) else start)
      in Range start' stop)"

definition open_body ::
  "int option \<Rightarrow> int option \<Rightarrow> raw_reader \<Rightarrow> store \<Rightarrow> (exn + unit) \<times> raw_reader \<times> store" where
  "open_body start stop r s =
     (case get_s3 (Some (range_string start stop r)) s of
        (Inl ioe, s1) \<Rightarrow>
          if \<not> is_IOError ioe then (Inl ioe, r, s1)
          else (case unwrap_ioerror ioe of
                  None \<Rightarrow> (Inl ioe, r, s1)
                | Some error_response \<Rightarrow>
                    if Message error_response \<noteq> Some OUT_OF_RANGE then (Inl ioe, r, s1)
                    else (case ActualObjectSize error_response of
                            Some n \<Rightarrow> (Inr (), at_eof n r, s1)
                          | None \<Rightarrow>
                              (case get_s3 None s1 of
                                 (Inl e2, s2) \<Rightarrow> (Inl e2, r, s2)
                               | (Inr resp, s2) \<Rightarrow>
                                   (case ContentLength resp of
                                      None \<Rightarrow> (Inl KeyError, r, s2)
                                    | Some n \<Rightarrow> (Inr (), at_eof n r, s2)))))
      | (Inr resp, s1) \<Rightarrow>
          (case ContentRange resp of
             None \<Rightarrow> (Inl KeyError, r, s1)
           | Some cr \<Rightarrow>
               (Inr (), r\<lparr>content_length := Some (cr_length cr), position := cr_start cr,
                          body := Some (Body resp)\<rparr>, s1)))"

definition seek ::
  "int \<Rightarrow> int \<Rightarrow> raw_reader \<Rightarrow> store \<Rightarrow> (exn + int) \<times> raw_reader \<times> store" where
  "seek offset whence r s =
     (if whence \<notin> set WHENCE_CHOICES then (Inl ValueError, r, s)
      else
        let r1 = r\<lparr>body := None\<rparr>;
            start = (if whence = WHENCE_START then Some (max 0 offset)
                     else if whence = WHENCE_CURRENT then Some (max 0 (offset + position r1))
                     else None);
            stop = (if whence = WHENCE_START \<or> whence = WHENCE_CURRENT then None
                    else Some (max 0 (- offset)));
            reached_eof =
              (case content_length r1 of
                 None \<Rightarrow> False
               | Some cl \<Rightarrow>
                   if (case start of None \<Rightarrow> False | Some st \<Rightarrow> st \<ge> cl) then True
                   else if stop = Some 0 then True
                   else False)
        in
          if reached_eof then
            (let r2 = r1\<lparr>body := Some BytesIO\<rparr> in
             case content_length r2 of
               None \<Rightarrow> (Inl AssertionError, r2, s)
             | Some cl \<Rightarrow>
                 if cl = 0 then (Inl AssertionError, r2, s)
                 else (Inr cl, r2\<lparr>position := cl\<rparr>, s))
          else
            (case open_body start stop r1 s of
               (Inl e, r', s') \<Rightarrow> (Inl e, r', s')
             | (Inr u, r', s') \<Rightarrow> (Inr (position r'), r', s')))"

definition body_read :: "int \<Rightarrow> body \<Rightarrow> (exn + bytes) \<times> body" where
  "body_read sz b = (if sz = -1 then stream_read_all b else stream_read sz b)"

definition read_from_body :: "int \<Rightarrow> raw_reader \<Rightarrow> (exn + bytes) \<times> raw_reader" where
  "read_from_body sz r =
     (case body r of
        None \<Rightarrow> (Inl AssertionError, r)
      | Some b \<Rightarrow> (let (res, b') = body_read sz b in (res, r\<lparr>body := Some b'\<rparr>)))"

definition advance :: "bytes \<Rightarrow> raw_reader \<Rightarrow> raw_reader" where
  "advance binary r = r\<lparr>position := position r + int (length binary)\<rparr>"

definition read_opened ::
  "int \<Rightarrow> raw_reader \<Rightarrow> store \<Rightarrow> (exn + bytes) \<times> raw_reader \<times> store" where
  "read_opened sz r s =
     (case content_length r of
        None \<Rightarrow> (Inl AssertionError, r, s)
      | Some cl \<Rightarrow>
          if cl = 0 then (Inl AssertionError, r, s)
          else if position r \<ge> cl then (Inr [], r, s)
          else
            (case read_from_body sz r of
               (Inr binary, r1) \<Rightarrow> (Inr binary, advance binary r1, s)
             | (Inl e, r1) \<Rightarrow>
                 if e \<noteq> IncompleteReadError then (Inl e, r1, s)
                 else
                   (case open_body None None r1 s of
                      (Inl e2, r2, s2) \<Rightarrow> (Inl e2, r2, s2)
                    | (Inr u, r2, s2) \<Rightarrow>
                        (case read_from_body sz r2 of
                           (Inl e3, r3) \<Rightarrow> (Inl e3, r3, s2)
                         | (Inr binary, r3) \<Rightarrow> (Inr binary, advance binary r3, s2)))))"

definition read ::
  "int \<Rightarrow> raw_reader \<Rightarrow> store \<Rightarrow> (exn + bytes) \<times> raw_reader \<times> store" where
  "read sz r s =
     (if body r = None then
        (case open_body None None r s of
           (Inl e, r', s') \<Rightarrow> (Inl e, r', s')
         | (Inr u, r', s') \<Rightarrow> read_opened sz r' s')
      else read_opened sz r s)"

section \<open>A store that holds one object\<close>

text \<open>
  Modelled from the spec: the store itself is an external collaborator. Its contract gives
  byte ranges the standard HTTP meaning (\<open>start-stop\<close> or the suffix form \<open>-N\<close>, answered
  with \<open>unit start-stop/total\<close>) and a range-not-satisfiable error that may echo the actual
  size. \<open>serve_object data hint drops\<close> serves the object \<open>data\<close> that way; \<open>hint\<close> says
  whether the error echoes the size, and the responses whose number is in \<open>drops\<close> lose
  their connection before the first byte.
\<close>

definition out_of_range :: "bool \<Rightarrow> int \<Rightarrow> exn" where
  "out_of_range hint n =
     ClientError (Some \<lparr>Message = Some OUT_OF_RANGE,
                        ActualObjectSize = (if hint then Some n else None)\<rparr>)"

definition served_body :: "nat list \<Rightarrow> nat \<Rightarrow> bytes \<Rightarrow> body" where
  "served_body drops n part = (if n \<in> set drops then Stream [] True else Stream part False)"

definition serve_object :: "bytes \<Rightarrow> bool \<Rightarrow> nat list \<Rightarrow> nat \<Rightarrow> range option \<Rightarrow> get_outcome" where
  "serve_object data hint drops n rq =
     (let len = int (length data) in
      case rq of
        None \<Rightarrow>
          Returns \<lparr>ContentRange = None, ContentLength = Some len,
                   Body = served_body drops n data\<rparr>
      | Some (Range None None) \<Rightarrow> Raises ValueError
      | Some (Range (Some a) stop) \<Rightarrow>
          if a \<ge> len then Raises (out_of_range hint len)
          else
            (let b = (case stop of None \<Rightarrow> len - 1 | Some b \<Rightarrow> min b (len - 1));
                 part = take (nat (b + 1 - a)) (drop (nat a) data)
             in Returns \<lparr>ContentRange = Some \<lparr>cr_start = a, cr_stop = b, cr_length = len\<rparr>,
                         ContentLength = Some (b + 1 - a),
                         Body = served_body drops n part\<rparr>)
      | Some (Range None (Some k)) \<Rightarrow>
          if k = 0 \<or> len = 0 then Raises (out_of_range hint len)
          else
            (let a = max 0 (len - k) in
             Returns \<lparr>ContentRange = Some \<lparr>cr_start = a, cr_stop = len - 1, cr_length = len\<rparr>,
                      ContentLength = Some (len - a),
                      Body = served_body drops n (drop (nat a) data)\<rparr>))"

definition object_store :: "bytes \<Rightarrow> bool \<Rightarrow> nat list \<Rightarrow> store" where
  "object_store data hint drops = \<lparr>serve = serve_object data hint drops, requests = []\<rparr>"

section \<open>The object store as seen by the writers\<close>

text \<open>
  Modelled from the spec: the store is an external collaborator whose contract lists
  multipart initiation, part upload (answered with an ETag), completion with the list of
  parts, abort, and a direct put. \<open>answer s n op\<close> is the store's answer to the call \<open>op\<close>
  when \<open>n\<close> calls were made before; \<open>calls\<close> records every call, \<open>sleeps\<close> every
  \<open>time.sleep\<close>. A call that succeeds has its effect on the parts received so far and
  on the object stored under the key: completion assembles the object from the listed
  parts in the listed order.
\<close>

type_synonym etag = string

datatype store_op =
    InitiateMultipartUpload
  | UploadPart int bytes
  | CompleteMultipartUpload "(etag \<times> int) list"
  | AbortMultipartUpload
  | PutObject bytes

datatype op_outcome = Succeeds "etag option" | Fails exn

record bucket =
  answer :: "nat \<Rightarrow> store_op \<Rightarrow> op_outcome"
  calls :: "store_op list"
  sleeps :: "int list"
  uploaded :: "(int \<times> bytes) list"
  stored :: "bytes option"

fun part_body :: "(int \<times> bytes) list \<Rightarrow> int \<Rightarrow> bytes" where
  "part_body ups n = (case map_of ups n of None \<Rightarrow> [] | Some b \<Rightarrow> b)"

fun effect :: "store_op \<Rightarrow> bucket \<Rightarrow> bucket" where
  "effect InitiateMultipartUpload s = s\<lparr>uploaded := []\<rparr>"
| "effect (UploadPart n b) s = s\<lparr>uploaded := (n, b) # uploaded s\<rparr>"
| "effect (CompleteMultipartUpload ps) s =
     s\<lparr>stored := Some (concat (map (\<lambda>(t, n). part_body (uploaded s) n) ps)), uploaded := []\<rparr>"
| "effect AbortMultipartUpload s = s\<lparr>uploaded := []\<rparr>"
| "effect (PutObject b) s = s\<lparr>stored := Some b\<rparr>"

definition store_call :: "store_op \<Rightarrow> bucket \<Rightarrow> (exn + etag option) \<times> bucket" where
  "store_call op s =
     (let s' = s\<lparr>calls := calls s @ [op]\<rparr> in
      case answer s (length (calls s)) op of
        Fails e \<Rightarrow> (Inl e, s')
      | Succeeds t \<Rightarrow> (Inr t, effect op s'))"

section \<open>\<open>_retry_if_failed\<close>\<close>

definition UPLOAD_ATTEMPTS :: int where "UPLOAD_ATTEMPTS = 6"
definition SLEEP_SECONDS :: int where "SLEEP_SECONDS = 10"

definition time_sleep :: "int \<Rightarrow> bucket \<Rightarrow> (exn + unit) \<times> bucket" where
  "time_sleep secs s =
     (if secs < 0 then (Inl ValueError, s) else (Inr (), s\<lparr>sleeps := sleeps s @ [secs]\<rparr>))"

text \<open>
  The \<open>for\<close> loop over \<open>range(attempts)\<close> with its \<open>else\<close> branch. The list of
  exception classes of the \<open>except\<close> clause is the predicate "is an instance of one of
  them"; without it the list is \<open>[EndpointConnectionError]\<close>.
\<close>

fun retry_loop ::
  "nat \<Rightarrow> (bucket \<Rightarrow> (exn + 'a) \<times> bucket) \<Rightarrow> int \<Rightarrow> (exn \<Rightarrow> bool) \<Rightarrow> bucket
     \<Rightarrow> (exn + 'a) \<times> bucket" where
  "retry_loop 0 partial sleep_seconds exceptions s = (Inl (IOError NoBackend), s)"
| "retry_loop (Suc k) partial sleep_seconds exceptions s =
     (case partial s of
        (Inr v, s') \<Rightarrow> (Inr v, s')
      | (Inl e, s') \<Rightarrow>
          if exceptions e then
            (case time_sleep sleep_seconds s' of
               (Inl e', s'') \<Rightarrow> (Inl e', s'')
             | (Inr u, s'') \<Rightarrow> retry_loop k partial sleep_seconds exceptions s'')
          else (Inl e, s'))"

definition retryable :: "(exn \<Rightarrow> bool) option \<Rightarrow> exn \<Rightarrow> bool" where
  "retryable exceptions =
     (case exceptions of None \<Rightarrow> (\<lambda>e. e = EndpointConnectionError) | Some p \<Rightarrow> p)"

definition retry_if_failed ::
  "(bucket \<Rightarrow> (exn + 'a) \<times> bucket) \<Rightarrow> int \<Rightarrow> int \<Rightarrow> (exn \<Rightarrow> bool) option \<Rightarrow> bucket
     \<Rightarrow> (exn + 'a) \<times> bucket" where
  "retry_if_failed partial attempts sleep_seconds exceptions s =
     retry_loop (nat attempts) partial sleep_seconds (retryable exceptions) s"

definition retry_default :: "(bucket \<Rightarrow> (exn + 'a) \<times> bucket) \<Rightarrow> bucket \<Rightarrow> (exn + 'a) \<times> bucket" where
  "retry_default partial s = retry_if_failed partial UPLOAD_ATTEMPTS SLEEP_SECONDS None s"

section \<open>\<open>MultipartWriter\<close>\<close>

text \<open>
  The staging buffer is an \<open>io.BytesIO\<close>: its value and its position. Writing puts the
  bytes at the position; \<open>seek(0)\<close> resets the position; a part upload sends the bytes
  from the position on.
\<close>

record bytes_io =
  getvalue :: bytes
  tell :: nat

definition new_bytes_io :: bytes_io where
  "new_bytes_io = \<lparr>getvalue = [], tell = 0\<rparr>"

definition bytes_io_write :: "bytes \<Rightarrow> bytes_io \<Rightarrow> int \<times> bytes_io" where
  "bytes_io_write b f =
     (int (length b),
      \<lparr>getvalue = take (tell f) (getvalue f) @ replicate (tell f - length (getvalue f)) (CHR 0x00)
                    @ b @ drop (tell f + length b) (getvalue f),
       tell = tell f + length b\<rparr>)"

definition bytes_io_rest :: "bytes_io \<Rightarrow> bytes" where
  "bytes_io_rest f = drop (tell f) (getvalue f)"

text \<open>
  \<open>mp\<close> tells whether \<open>_mp\<close> holds the multipart upload (\<open>False\<close> for \<open>None\<close>);
  \<open>parts\<close> holds the pairs of ETag and part number.
\<close>

record writer =
  mp :: bool
  min_part_size :: int
  buf :: bytes_io
  total_bytes :: int
  total_parts :: int
  parts :: "(etag \<times> int) list"

definition MultipartWriter_init :: "int \<Rightarrow> bucket \<Rightarrow> (exn + writer) \<times> bucket" where
  "MultipartWriter_init mps s =
     (case retry_default (store_call InitiateMultipartUpload) s of
        (Inl (ClientError d), s') \<Rightarrow> (Inl ValueError, s')
      | (Inl e, s') \<Rightarrow> (Inl e, s')
      | (Inr u, s') \<Rightarrow>
          (Inr \<lparr>mp = True, min_part_size = mps, buf = new_bytes_io, total_bytes = 0,
                total_parts = 0, parts = []\<rparr>, s'))"

definition upload_next_part :: "writer \<Rightarrow> bucket \<Rightarrow> (exn + unit) \<times> writer \<times> bucket" where
  "upload_next_part w s =
     (let part_num = total_parts w + 1;
          w1 = w\<lparr>buf := (buf w)\<lparr>tell := 0\<rparr>\<rparr>
      in if \<not> mp w1 then (Inl AttributeError, w1, s)
         else
           (case retry_default (store_call (UploadPart part_num (bytes_io_rest (buf w1)))) s of
              (Inl e, s') \<Rightarrow> (Inl e, w1, s')
            | (Inr None, s') \<Rightarrow> (Inl KeyError, w1, s')
            | (Inr (Some t), s') \<Rightarrow>
                (Inr (), w1\<lparr>parts := parts w1 @ [(t, part_num)],
                             total_parts := total_parts w1 + 1,
                             buf := new_bytes_io\<rparr>, s')))"

definition MultipartWriter_write :: "bytes \<Rightarrow> writer \<Rightarrow> bucket \<Rightarrow> (exn + int) \<times> writer \<times> bucket" where
  "MultipartWriter_write b w s =
     (let (len, f) = bytes_io_write b (buf w);
          w1 = w\<lparr>buf := f, total_bytes := total_bytes w + len\<rparr>
      in if int (tell (buf w1)) \<ge> min_part_size w1 then
           (case upload_next_part w1 s of
              (Inl e, w2, s2) \<Rightarrow> (Inl e, w2, s2)
            | (Inr u, w2, s2) \<Rightarrow> (Inr len, w2, s2))
         else (Inr len, w1, s))"

text \<open>
  \<open>close\<close> in two steps: the upload of what is staged, then (\<open>finish\<close>) the
  completion, or the abort and the empty put, and the release of \<open>_mp\<close>. An exception
  leaves \<open>_mp\<close> as it was.
\<close>

definition finish :: "writer \<Rightarrow> bucket \<Rightarrow> (exn + unit) \<times> writer \<times> bucket" where
  "finish w s =
     (if total_bytes w \<noteq> 0 \<and> mp w then
        (case retry_default (store_call (CompleteMultipartUpload (parts w))) s of
           (Inl e, s') \<Rightarrow> (Inl e, w, s')
         | (Inr u, s') \<Rightarrow> (Inr (), w\<lparr>mp := False\<rparr>, s'))
      else if mp w then
        (case store_call AbortMultipartUpload s of
           (Inl e, s') \<Rightarrow> (Inl e, w, s')
         | (Inr u, s') \<Rightarrow>
             (case store_call (PutObject []) s' of
                (Inl e, s'') \<Rightarrow> (Inl e, w, s'')
              | (Inr u', s'') \<Rightarrow> (Inr (), w\<lparr>mp := False\<rparr>, s'')))
      else (Inr (), w\<lparr>mp := False\<rparr>, s))"

definition MultipartWriter_close :: "writer \<Rightarrow> bucket \<Rightarrow> (exn + unit) \<times> writer \<times> bucket" where
  "MultipartWriter_close w s =
     (if tell (buf w) \<noteq> 0 then
        (case upload_next_part w s of
           (Inl e, w1, s1) \<Rightarrow> (Inl e, w1, s1)
         | (Inr u, w1, s1) \<Rightarrow> finish w1 s1)
      else finish w s)"

definition MultipartWriter_closed :: "writer \<Rightarrow> bool" where
  "MultipartWriter_closed w = (\<not> mp w)"

definition MultipartWriter_tell :: "writer \<Rightarrow> int" where
  "MultipartWriter_tell w = total_bytes w"

definition MultipartWriter_terminate :: "writer \<Rightarrow> bucket \<Rightarrow> (exn + unit) \<times> writer \<times> bucket" where
  "MultipartWriter_terminate w s =
     (if \<not> mp w then (Inl AssertionError, w, s)
      else (case store_call AbortMultipartUpload s of
              (Inl e, s') \<Rightarrow> (Inl e, w, s')
            | (Inr u, s') \<Rightarrow> (Inr (), w\<lparr>mp := False\<rparr>, s')))"

section \<open>Runs of the writer and stores used in the statements\<close>

text \<open>A sequence of \<open>write\<close> calls, stopped by the first exception.\<close>

fun writes :: "bytes list \<Rightarrow> writer \<Rightarrow> bucket \<Rightarrow> (exn + unit) \<times> writer \<times> bucket" where
  "writes [] w s = (Inr (), w, s)"
| "writes (b # bs) w s =
     (case MultipartWriter_write b w s of
        (Inl e, w', s') \<Rightarrow> (Inl e, w', s')
      | (Inr n, w', s') \<Rightarrow> writes bs w' s')"

text \<open>
  A store that answers every call, with an ETag that tells the number of the call, and one
  whose endpoint cannot be reached at the calls listed in \<open>down\<close>.
\<close>

definition reliable :: "nat \<Rightarrow> store_op \<Rightarrow> op_outcome" where
  "reliable n op = Succeeds (Some (''etag'' @ replicate n CHR ''i''))"

definition flaky :: "nat list \<Rightarrow> nat \<Rightarrow> store_op \<Rightarrow> op_outcome" where
  "flaky down n op = (if n \<in> set down then Fails EndpointConnectionError else reliable n op)"

definition new_bucket :: "(nat \<Rightarrow> store_op \<Rightarrow> op_outcome) \<Rightarrow> bucket" where
  "new_bucket a = \<lparr>answer = a, calls = [], sleeps = [], uploaded = [], stored = None\<rparr>"

text \<open>Opening a writer, writing the given pieces in order, and closing it.\<close>

definition session :: "int \<Rightarrow> bytes list \<Rightarrow> bucket \<Rightarrow> (exn + unit) \<times> writer option \<times> bucket" where
  "session mps bs s =
     (case MultipartWriter_init mps s of
        (Inl e, s1) \<Rightarrow> (Inl e, None, s1)
      | (Inr w0, s1) \<Rightarrow>
          (case writes bs w0 s1 of
             (Inl e, w, s2) \<Rightarrow> (Inl e, Some w, s2)
           | (Inr u, w, s2) \<Rightarrow> (case MultipartWriter_close w s2 of (r, w', s3) \<Rightarrow> (r, Some w', s3))))"

text \<open>The store answers every call, and every upload with an ETag.\<close>

definition always_succeeds :: "(nat \<Rightarrow> store_op \<Rightarrow> op_outcome) \<Rightarrow> bool" where
  "always_succeeds a = (\<forall>n op. \<exists>t. a n op = Succeeds (Some t))"


text \<open>
  What holds of a writer between two calls that returned: the upload is open, the position
  of the staging buffer is at its end, no more bytes are staged than were written, and
  the parts recorded are numbered 1, 2, ... in order. \<open>assembled\<close> is the concatenation
  of the parts the store has received under these numbers.
\<close>

definition staged :: "writer \<Rightarrow> bool" where
  "staged w \<longleftrightarrow>
     mp w \<and> tell (buf w) = length (getvalue (buf w))
     \<and> int (length (getvalue (buf w))) \<le> total_bytes w
     \<and> 0 \<le> total_parts w \<and> map snd (parts w) = [1..total_parts w]"

definition assembled :: "writer \<Rightarrow> bucket \<Rightarrow> bytes" where
  "assembled w s = concat (map (part_body (uploaded s)) [1..total_parts w])"

section \<open>\<open>ByteBuffer\<close>\<close>

text \<open>
  Modelled from the spec: \<open>smart_open.bytebuffer.ByteBuffer\<close> is not part of the source at
  hand. The spec describes it as a byte region with a configured chunk size, whose length
  is the bytes appended minus the bytes consumed, with \<open>fill(source)\<close> returning the number
  of bytes appended, \<open>read(n)\<close> returning at most \<open>n\<close> bytes, \<open>readline(delimiter)\<close>
  returning the bytes up to and including the delimiter, or all remaining bytes when there
  is none, and \<open>empty()\<close>. \<open>held\<close> is the region not yet consumed; \<open>fill\<close> asks the
  source for one chunk.
\<close>

record byte_buffer =
  chunk_size :: int
  held :: bytes

definition ByteBuffer :: "int \<Rightarrow> byte_buffer" where
  "ByteBuffer n = \<lparr>chunk_size = n, held = []\<rparr>"

definition buffer_len :: "byte_buffer \<Rightarrow> int" where
  "buffer_len b = int (length (held b))"

definition buffer_read :: "int \<Rightarrow> byte_buffer \<Rightarrow> bytes \<times> byte_buffer" where
  "buffer_read n b = (take (nat n) (held b), b\<lparr>held := drop (nat n) (held b)\<rparr>)"

definition buffer_empty :: "byte_buffer \<Rightarrow> byte_buffer" where
  "buffer_empty b = b\<lparr>held := []\<rparr>"

fun find_bytes :: "bytes \<Rightarrow> bytes \<Rightarrow> nat option" where
  "find_bytes t [] = (if t = [] then Some 0 else None)"
| "find_bytes t (x # xs) =
     (if prefix t (x # xs) then Some 0 else map_option Suc (find_bytes t xs))"

definition buffer_readline :: "bytes \<Rightarrow> byte_buffer \<Rightarrow> bytes \<times> byte_buffer" where
  "buffer_readline terminator b =
     (case find_bytes terminator (held b) of
        None \<Rightarrow> buffer_read (buffer_len b) b
      | Some i \<Rightarrow> buffer_read (int (i + length terminator)) b)"

definition buffer_fill ::
  "byte_buffer \<Rightarrow> raw_reader \<Rightarrow> store \<Rightarrow> (exn + int) \<times> byte_buffer \<times> raw_reader \<times> store" where
  "buffer_fill b r s =
     (case read (chunk_size b) r s of
        (Inl e, r', s') \<Rightarrow> (Inl e, b, r', s')
      | (Inr new_bytes, r', s') \<Rightarrow>
          (Inr (int (length new_bytes)), b\<lparr>held := held b @ new_bytes\<rparr>, r', s'))"

section \<open>\<open>Reader\<close>\<close>

record reader =
  raw :: raw_reader
  current_pos :: int
  buffer :: byte_buffer
  eof :: bool
  line_terminator :: bytes

definition Reader_seek ::
  "int \<Rightarrow> int \<Rightarrow> reader \<Rightarrow> store \<Rightarrow> (exn + int) \<times> reader \<times> store" where
  "Reader_seek offset whence rd s =
     (let (whence', offset') =
            (if whence = WHENCE_CURRENT then (WHENCE_START, offset + current_pos rd)
             else (whence, offset))
      in case seek offset' whence' (raw rd) s of
           (Inl e, r', s') \<Rightarrow> (Inl e, rd\<lparr>raw := r'\<rparr>, s')
         | (Inr p, r', s') \<Rightarrow>
             (Inr p,
              rd\<lparr>raw := r', current_pos := p, buffer := buffer_empty (buffer rd),
                 eof := (content_length r' = Some p)\<rparr>, s'))"

definition Reader_init ::
  "int \<Rightarrow> bytes \<Rightarrow> bool \<Rightarrow> store \<Rightarrow> (exn + unit) \<times> reader \<times> store" where
  "Reader_init buffer_size terminator defer_seek s =
     (let rd = \<lparr>raw = raw_init, current_pos = 0, buffer = ByteBuffer buffer_size, eof = False,
                line_terminator = terminator\<rparr>
      in if \<not> defer_seek then
           (case Reader_seek 0 WHENCE_START rd s of
              (Inl e, rd', s') \<Rightarrow> (Inl e, rd', s')
            | (Inr p, rd', s') \<Rightarrow> (Inr (), rd', s'))
         else (Inr (), rd, s))"

definition Reader_tell :: "reader \<Rightarrow> int" where
  "Reader_tell rd = current_pos rd"

definition Reader_truncate :: "reader \<Rightarrow> exn + unit" where
  "Reader_truncate rd = Inl UnsupportedOperation"

definition Reader_detach :: "reader \<Rightarrow> exn + unit" where
  "Reader_detach rd = Inl UnsupportedOperation"

definition read_from_buffer :: "int \<Rightarrow> reader \<Rightarrow> bytes \<times> reader" where
  "read_from_buffer sz rd =
     (let sz' = (if sz \<ge> 0 then sz else buffer_len (buffer rd));
          (part, b') = buffer_read sz' (buffer rd)
      in (part, rd\<lparr>buffer := b', current_pos := current_pos rd + int (length part)\<rparr>))"

text \<open>
  \<open>_fill_buffer\<close>: the loop runs while the buffer is shorter than the size asked for and
  the end has not been seen. Each round either appends at least one byte or sets the end
  flag, which is why it terminates.
\<close>

definition fill_once :: "reader \<Rightarrow> store \<Rightarrow> (exn + int) \<times> reader \<times> store" where
  "fill_once rd s =
     (case buffer_fill (buffer rd) (raw rd) s of
        (res, b', r', s') \<Rightarrow> (res, rd\<lparr>buffer := b', raw := r'\<rparr>, s'))"

function fill_loop :: "int \<Rightarrow> reader \<Rightarrow> store \<Rightarrow> (exn + unit) \<times> reader \<times> store" where
  "fill_loop sz rd s =
     (if buffer_len (buffer rd) < sz \<and> \<not> eof rd then
        (case fill_once rd s of
           (Inl e, rd', s') \<Rightarrow> (Inl e, rd', s')
         | (Inr bytes_read, rd', s') \<Rightarrow>
             if bytes_read = 0 then fill_loop sz (rd'\<lparr>eof := True\<rparr>) s'
             else fill_loop sz rd' s')
      else (Inr (), rd, s))"
  by pat_completeness auto
termination
  by (relation "measure (\<lambda>(sz, rd, s). nat (sz - buffer_len (buffer rd)) + (if eof rd then 0 else 1))")
    (auto simp: fill_once_def buffer_fill_def buffer_len_def split: prod.splits sum.splits)

declare fill_loop.simps [simp del]

definition fill_buffer :: "int \<Rightarrow> reader \<Rightarrow> store \<Rightarrow> (exn + unit) \<times> reader \<times> store" where
  "fill_buffer sz rd s = fill_loop (max sz (chunk_size (buffer rd))) rd s"

text \<open>
  \<open>read\<close>. In the branch for a negative size the position is set from the raw reader's
  content length; the raw read that precedes it has asserted that this length is known, so
  the case \<open>None\<close> is never reached (lemma \<open>read_Inr_content_length\<close>).
\<close>

definition Reader_read :: "int \<Rightarrow> reader \<Rightarrow> store \<Rightarrow> (exn + bytes) \<times> reader \<times> store" where
  "Reader_read sz rd s =
     (if sz = 0 then (Inr [], rd, s)
      else if sz < 0 then
        (let (part, rd1) = read_from_buffer (-1) rd in
         case read (-1) (raw rd1) s of
           (Inl e, r', s') \<Rightarrow> (Inl e, rd1\<lparr>raw := r'\<rparr>, s')
         | (Inr rest, r', s') \<Rightarrow>
             (Inr (part @ rest),
              rd1\<lparr>raw := r',
                  current_pos := (case content_length r' of
                                    Some n \<Rightarrow> n
                                  | None \<Rightarrow> current_pos rd1)\<rparr>, s'))
      else if buffer_len (buffer rd) \<ge> sz then
        (let (part, rd1) = read_from_buffer sz rd in (Inr part, rd1, s))
      else if eof rd then
        (let (part, rd1) = read_from_buffer (-1) rd in (Inr part, rd1, s))
      else
        (case fill_buffer sz rd s of
           (Inl e, rd1, s1) \<Rightarrow> (Inl e, rd1, s1)
         | (Inr u, rd1, s1) \<Rightarrow>
             (let (part, rd2) = read_from_buffer sz rd1 in (Inr part, rd2, s1))))"

text \<open>
  \<open>readline\<close>: the \<open>while\<close> loop need not terminate (with a chunk size of 0 nothing is
  ever filled in), so it runs on fuel, and running out of fuel is \<open>None\<close>.
\<close>

fun readline_loop ::
  "nat \<Rightarrow> bytes \<Rightarrow> reader \<Rightarrow> store \<Rightarrow> ((exn + bytes) \<times> reader \<times> store) option" where
  "readline_loop 0 line rd s = None"
| "readline_loop (Suc fuel) line rd s =
     (if eof rd \<and> buffer_len (buffer rd) = 0 then Some (Inr line, rd, s)
      else
        (let (line_part, b') = buffer_readline (line_terminator rd) (buffer rd);
             line' = line @ line_part;
             rd1 = rd\<lparr>buffer := b', current_pos := current_pos rd + int (length line_part)\<rparr>
         in if suffix (line_terminator rd) line_part then Some (Inr line', rd1, s)
            else
              (case fill_buffer (-1) rd1 s of
                 (Inl e, rd2, s2) \<Rightarrow> Some (Inl e, rd2, s2)
               | (Inr u, rd2, s2) \<Rightarrow> readline_loop fuel line' rd2 s2)))"

definition Reader_readline ::
  "nat \<Rightarrow> int \<Rightarrow> reader \<Rightarrow> store \<Rightarrow> ((exn + bytes) \<times> reader \<times> store) option" where
  "Reader_readline fuel limit rd s =
     (if limit \<noteq> -1 then Some (Inl NotImplementedError, rd, s)
      else readline_loop fuel [] rd s)"

section \<open>\<open>iter_bucket\<close>\<close>

text \<open>
  The listing is the environment: \<open>list_objects_v2 ctoken\<close> is the page the store returns
  for the continuation token (the keys of its \<open>Contents\<close> and the next token), or the
  exception it raises. The paging loop ends when a page carries no token, which a store
  may never do, hence the fuel. The result is the list of keys the generator yields and
  the exception that ended it, if any.
\<close>

record list_response =
  Contents :: "string list option"
  NextContinuationToken :: "string option"

definition truthy :: "string option \<Rightarrow> bool" where
  "truthy t = (case t of None \<Rightarrow> False | Some x \<Rightarrow> x \<noteq> [])"

fun list_bucket ::
  "nat \<Rightarrow> (string option \<Rightarrow> exn + list_response) \<Rightarrow> (string \<Rightarrow> bool) \<Rightarrow> string option
     \<Rightarrow> (string list \<times> exn option) option" where
  "list_bucket 0 list_objects_v2 accept_key ctoken = None"
| "list_bucket (Suc fuel) list_objects_v2 accept_key ctoken =
     (case list_objects_v2 (if truthy ctoken then ctoken else None) of
        Inl e \<Rightarrow> Some ([], Some e)
      | Inr response \<Rightarrow>
          (let keys = (case Contents response of
                         None \<Rightarrow> []
                       | Some content \<Rightarrow> filter accept_key content);
               ctoken' = NextContinuationToken response
           in if \<not> truthy ctoken' then Some (keys, None)
              else (case list_bucket fuel list_objects_v2 accept_key ctoken' of
                      None \<Rightarrow> None
                    | Some (rest, err) \<Rightarrow> Some (keys @ rest, err))))"

text \<open>
  \<open>_download_key\<close>: \<open>download_fileobj key x\<close> is the outcome of the download of \<open>key\<close>
  at attempt \<open>x\<close>. The loop runs over \<open>range(retries + 1)\<close>; falling out of it returns
  \<open>None\<close>.
\<close>

fun is_ClientError :: "exn \<Rightarrow> bool" where
  "is_ClientError (ClientError d) = True"
| "is_ClientError _ = False"

fun download_attempts ::
  "(string \<Rightarrow> nat \<Rightarrow> exn + bytes) \<Rightarrow> string \<Rightarrow> int \<Rightarrow> nat \<Rightarrow> nat
     \<Rightarrow> exn + (string \<times> bytes) option" where
  "download_attempts download_fileobj key_name retries x 0 = Inr None"
| "download_attempts download_fileobj key_name retries x (Suc n) =
     (case download_fileobj key_name x of
        Inr content_bytes \<Rightarrow> Inr (Some (key_name, content_bytes))
      | Inl e \<Rightarrow>
          if is_ClientError e then
            (if int x = retries then Inl e
             else download_attempts download_fileobj key_name retries (Suc x) n)
          else Inl e)"

definition download_key ::
  "(string \<Rightarrow> nat \<Rightarrow> exn + bytes) \<Rightarrow> string \<Rightarrow> string option \<Rightarrow> int
     \<Rightarrow> exn + (string \<times> bytes) option" where
  "download_key download_fileobj key_name bucket_name retries =
     (if bucket_name = None then Inl ValueError
      else download_attempts download_fileobj key_name retries 0 (nat (retries + 1)))"

text \<open>
  Modelled from the spec: \<open>smart_open.concurrency.create_pool\<close> is not part of the source
  at hand. The spec says that the pool delivers the results in completion order, not in
  listing order; \<open>imap_unordered workers\<close> is the order in which the pool of that many
  workers delivers them, and the statements below hold for every such order. The
  generator is run by a caller that iterates to the end: \<open>yielded\<close> are the pairs it
  received, \<open>raised\<close> the exception that ended the iteration, \<open>pulled\<close> the number of
  results taken from the pool, and \<open>pool_terminated\<close> records that the \<open>with\<close> block
  was left.
\<close>

record iteration =
  yielded :: "(string \<times> bytes) list"
  raised :: "exn option"
  pulled :: nat
  pool_terminated :: bool

fun consume ::
  "int option \<Rightarrow> int \<Rightarrow> (exn + (string \<times> bytes) option) list
     \<Rightarrow> (string \<times> bytes) list \<times> exn option \<times> nat" where
  "consume key_limit key_no [] = ([], None, 0)"
| "consume key_limit key_no (r # rs) =
     (case r of
        Inl e \<Rightarrow> ([], Some e, 1)
      | Inr None \<Rightarrow> ([], Some TypeError, 1)
      | Inr (Some kc) \<Rightarrow>
          if (case key_limit of None \<Rightarrow> False | Some l \<Rightarrow> key_no + 1 \<ge> l) then ([kc], None, 1)
          else (case consume key_limit (key_no + 1) rs of
                  (ys, e, n) \<Rightarrow> (kc # ys, e, Suc n)))"

definition accept_all :: "string \<Rightarrow> bool" where
  "accept_all key = True"

definition iter_bucket ::
  "nat \<Rightarrow> (string option \<Rightarrow> exn + list_response) \<Rightarrow> (string \<Rightarrow> nat \<Rightarrow> exn + bytes)
     \<Rightarrow> (int \<Rightarrow> (exn + (string \<times> bytes) option) list \<Rightarrow> (exn + (string \<times> bytes) option) list)
     \<Rightarrow> string option \<Rightarrow> (string \<Rightarrow> bool) option \<Rightarrow> int option \<Rightarrow> int \<Rightarrow> int
     \<Rightarrow> iteration option" where
  "iter_bucket fuel list_objects_v2 download_fileobj imap_unordered
       bucket_name accept_key key_limit workers retries =
     (let accept_key' = (case accept_key of None \<Rightarrow> accept_all | Some p \<Rightarrow> p) in
      case list_bucket fuel list_objects_v2 accept_key' None of
        None \<Rightarrow> None
      | Some (keys, err) \<Rightarrow>
          (let tasks = map (\<lambda>k. download_key download_fileobj k bucket_name retries) keys
                         @ (case err of None \<Rightarrow> [] | Some e \<Rightarrow> [Inl e]);
               result_iterator = imap_unordered workers tasks
           in case consume key_limit 0 result_iterator of
                (ys, e, n) \<Rightarrow>
                  Some \<lparr>yielded = ys, raised = e, pulled = n, pool_terminated = True\<rparr>))"

text \<open>The pair a successful download carries.\<close>

fun the_pair :: "exn + (string \<times> bytes) option \<Rightarrow> string \<times> bytes" where
  "the_pair (Inr (Some p)) = p"
| "the_pair _ = ([], [])"

text \<open>A bucket of ten keys listed in two pages, downloads that succeed at the second
  attempt, a pool that delivers the last result first, and a reader with two lines in its
  buffer.\<close>

definition ten_keys :: "string list" where
  "ten_keys = [''k0'', ''k1'', ''k2'', ''k3'', ''k4'', ''k5'', ''k6'', ''k7'', ''k8'', ''k9'']"

definition two_pages :: "string option \<Rightarrow> exn + list_response" where
  "two_pages ctoken =
     (if ctoken = None
      then Inr \<lparr>Contents = Some (take 6 ten_keys), NextContinuationToken = Some ''page2''\<rparr>
      else Inr \<lparr>Contents = Some (drop 6 ten_keys), NextContinuationToken = None\<rparr>)"

definition fetch_twice :: "string \<Rightarrow> nat \<Rightarrow> exn + bytes" where
  "fetch_twice key_name x = (if x = 0 then Inl (ClientError None) else Inr (key_name @ ''!''))"

definition last_first ::
  "int \<Rightarrow> (exn + (string \<times> bytes) option) list \<Rightarrow> (exn + (string \<times> bytes) option) list" where
  "last_first workers xs = (if workers \<le> 1 then xs else rev xs)"


section \<open>Reading back what was written, and lines of a stream\<close>

text \<open>
  Modelled from the spec: the store is one and the same for the writers and the readers.
  \<open>written_object hint s\<close> is the reader's view of the object that the writer's store
  \<open>s\<close> holds under the key, served with the standard range semantics; a key that was
  never stored is answered with a client error.
\<close>

definition written_object :: "bool \<Rightarrow> bucket \<Rightarrow> store" where
  "written_object hint s =
     (case stored s of
        Some data \<Rightarrow> object_store data hint []
      | None \<Rightarrow> \<lparr>serve = (\<lambda>n rq. Raises (ClientError (Some \<lparr>Message = Some ''The specified key does not exist.'', ActualObjectSize = None\<rparr>))), requests = []\<rparr>)"

text \<open>
  The first line of a stream for a one-byte terminator \<open>c\<close>: the bytes up to and including
  the first \<open>c\<close>, or all of them when there is none.
\<close>

definition first_line :: "char \<Rightarrow> bytes \<Rightarrow> bytes" where
  "first_line c xs = takeWhile (\<lambda>x. x \<noteq> c) xs @ take 1 (dropWhile (\<lambda>x. x \<noteq> c) xs)"






lemmas whence_defs = WHENCE_CHOICES_def WHENCE_START_def WHENCE_CURRENT_def WHENCE_END_def

lemmas store_defs = get_s3_def s3_object_get_def object_store_def serve_object_def
  out_of_range_def served_body_def

lemmas raw_defs = seek_def open_body_def range_string_def raw_init_def at_eof_def read_def
  read_opened_def read_from_body_def body_read_def advance_def BytesIO_def

lemmas reader_defs = Reader_init_def Reader_seek_def Reader_read_def Reader_tell_def ByteBuffer_def
  buffer_empty_def buffer_len_def buffer_read_def read_from_buffer_def

section \<open>Properties of the raw reader\<close>

lemma get_s3_client_error:
  assumes "serve s (length (requests s)) rq = Raises (ClientError d)"
  shows "get_s3 rq s = (Inl (IOError (Backend d)), s\<lparr>requests := requests s @ [rq]\<rparr>)"
  using assms by (simp add: get_s3_def s3_object_get_def)

lemma get_s3_returns:
  assumes "serve s (length (requests s)) rq = Returns resp"
  shows "get_s3 rq s = (Inr resp, s\<lparr>requests := requests s @ [rq]\<rparr>)"
  using assms by (simp add: get_s3_def s3_object_get_def)

lemma get_s3_raises:
  assumes "serve s (length (requests s)) rq = Raises e" "\<forall>d. e \<noteq> ClientError d"
  shows "get_s3 rq s = (Inl e, s\<lparr>requests := requests s @ [rq]\<rparr>)"
  using assms by (cases e) (simp_all add: get_s3_def s3_object_get_def)

text \<open>
  When the length is known and is not zero, a seek that is provably at or past the end
  asks the store nothing and leaves the reader at the end.
\<close>

lemma seek_known_eof:
  assumes "content_length r = Some cl" "cl \<noteq> 0"
    and "(whence = WHENCE_START \<and> max 0 offset \<ge> cl)
       \<or> (whence = WHENCE_CURRENT \<and> max 0 (offset + position r) \<ge> cl)
       \<or> (whence = WHENCE_END \<and> offset \<ge> 0)"
  shows "seek offset whence r s = (Inr cl, r\<lparr>body := Some BytesIO, position := cl\<rparr>, s)"
  using assms by (auto simp: seek_def whence_defs Let_def)

lemma read_at_eof:
  assumes "content_length r = Some cl" "cl \<noteq> 0" "position r \<ge> cl" "body r \<noteq> None"
  shows "read sz r s = (Inr [], r, s)"
  using assms by (auto simp add: read_def read_opened_def)

lemma seek_known_eof_then_reads:
  assumes "content_length r = Some cl" "cl \<noteq> 0"
    and "(whence = WHENCE_START \<and> max 0 offset \<ge> cl)
       \<or> (whence = WHENCE_CURRENT \<and> max 0 (offset + position r) \<ge> cl)
       \<or> (whence = WHENCE_END \<and> offset \<ge> 0)"
  shows "\<exists>r'. seek offset whence r s = (Inr cl, r', s) \<and> position r' = cl
            \<and> read sz r' s = (Inr [], r', s) \<and> read sz' r' s = (Inr [], r', s)"
proof -
  let ?r' = "r\<lparr>body := Some BytesIO, position := cl\<rparr>"
  have 1: "seek offset whence r s = (Inr cl, ?r', s)"
    using assms by (rule seek_known_eof)
  have 2: "read n ?r' s = (Inr [], ?r', s)" for n
    by (rule read_at_eof[where cl = cl]) (use assms in simp_all)
  show ?thesis using 1 2 by simp
qed

text \<open>
  Claim C1. With a known content length, a seek to a start at or beyond it should ask the
  store nothing and leave the reader at the end, and every read after it should return no
  bytes. For a known length of zero the code does not do so: the guard
  \<open>assert self._content_length\<close> takes the length 0 for a missing one. Opening an empty
  object (the store answers range-not-satisfiable with the actual size 0) makes the length
  known as 0; the next seek to 0 and the next read both end in \<open>AssertionError\<close>.
\<close>

theorem seek_known_eof_empty_object_asserts:
  "(case seek 0 WHENCE_START raw_init (object_store [] True []) of
      (res, r1, s1) \<Rightarrow>
        res = Inr 0 \<and> content_length r1 = Some 0 \<and> position r1 = 0
        \<and> fst (seek 0 WHENCE_START r1 s1) = Inl AssertionError
        \<and> fst (read (-1) r1 s1) = Inl AssertionError)"
  by (simp add: raw_defs store_defs whence_defs Let_def)

text \<open>
  Claim C2. When the range request is answered with the range-not-satisfiable error,
  \<open>_open_body\<close> recovers: with a size echoed by the error it sets position and content
  length to that size and installs an empty body after this one request; without it, it
  asks the store once more, without a range, and takes the size from the
  \<open>ContentLength\<close> of the answer. Only a failure of that second request, or an answer
  without a length, reaches the caller.
\<close>

theorem open_body_recovers_range_not_satisfiable:
  assumes "serve s (length (requests s)) (Some (range_string start stop r))
             = Raises (ClientError (Some d))"
    and "Message d = Some OUT_OF_RANGE"
  shows "open_body start stop r s =
     (case ActualObjectSize d of
        Some n \<Rightarrow>
          (Inr (), r\<lparr>position := n, content_length := Some n, body := Some BytesIO\<rparr>,
           s\<lparr>requests := requests s @ [Some (range_string start stop r)]\<rparr>)
      | None \<Rightarrow>
          (case serve s (Suc (length (requests s))) None of
             Returns resp \<Rightarrow>
               (case ContentLength resp of
                  Some n \<Rightarrow>
                    (Inr (), r\<lparr>position := n, content_length := Some n, body := Some BytesIO\<rparr>,
                     s\<lparr>requests := requests s @ [Some (range_string start stop r), None]\<rparr>)
                | None \<Rightarrow>
                    (Inl KeyError, r,
                     s\<lparr>requests := requests s @ [Some (range_string start stop r), None]\<rparr>))
           | Raises e \<Rightarrow>
               (Inl (case e of ClientError d2 \<Rightarrow> IOError (Backend d2) | _ \<Rightarrow> e), r,
                s\<lparr>requests := requests s @ [Some (range_string start stop r), None]\<rparr>)))"
proof -
  let ?rq = "Some (range_string start stop r)"
  let ?s1 = "s\<lparr>requests := requests s @ [?rq]\<rparr>"
  have g: "get_s3 ?rq s = (Inl (IOError (Backend (Some d))), ?s1)"
    using assms(1) by (rule get_s3_client_error)
  show ?thesis
  proof (cases "ActualObjectSize d")
    case (Some n)
    then show ?thesis using g assms(2) by (simp add: open_body_def at_eof_def)
  next
    case None
    have g2: "get_s3 None ?s1 =
        (case serve s (Suc (length (requests s))) None of
           Returns resp \<Rightarrow> Inr resp
         | Raises e \<Rightarrow> Inl (case e of ClientError d2 \<Rightarrow> IOError (Backend d2) | _ \<Rightarrow> e),
         s\<lparr>requests := requests s @ [?rq, None]\<rparr>)"
      by (simp add: get_s3_def s3_object_get_def split: get_outcome.splits exn.splits)
    show ?thesis
      using g g2 None assms(2)
      by (simp add: open_body_def at_eof_def split: get_outcome.splits option.splits)
  qed
qed

theorem open_body_recovers_range_not_satisfiable_witness:
  "open_body (Some 7) None raw_init (object_store ''abc'' True []) =
     (Inr (), \<lparr>content_length = Some 3, position = 3, body = Some BytesIO\<rparr>,
      \<lparr>serve = serve_object ''abc'' True [], requests = [Some (Range (Some 7) None)]\<rparr>)
   \<and> open_body (Some 7) None raw_init (object_store ''abc'' False []) =
     (Inr (), \<lparr>content_length = Some 3, position = 3, body = Some BytesIO\<rparr>,
      \<lparr>serve = serve_object ''abc'' False [], requests = [Some (Range (Some 7) None), None]\<rparr>)"
proof -
  let ?d = "\<lambda>h. \<lparr>Message = Some OUT_OF_RANGE, ActualObjectSize = (if h then Some 3 else None)\<rparr>"
  have h1: "serve (object_store ''abc'' h []) (length (requests (object_store ''abc'' h [])))
              (Some (range_string (Some 7) None raw_init)) = Raises (ClientError (Some (?d h)))"
    for h
    by (simp add: store_defs range_string_def)
  have h2: "Message (?d h) = Some OUT_OF_RANGE" for h
    by simp
  show ?thesis
    using open_body_recovers_range_not_satisfiable [OF h1 [of True] h2 [of True]]
      open_body_recovers_range_not_satisfiable [OF h1 [of False] h2 [of False]]
    by (simp add: store_defs range_string_def raw_init_def)
qed

text \<open>
  Claim C3. A read whose body reports an incomplete read opens one fresh range request at
  the current position and reads once more: what the fresh body returns for the same size
  is the result, and a failure of that second read, an incomplete read included, reaches
  the caller. The request log grows by exactly that one request either way.
\<close>

theorem read_retries_incomplete_read_once:
  assumes "content_length r = Some cl" "cl \<noteq> 0" "position r < cl"
    and "body r = Some b"
    and "body_read sz b = (Inl IncompleteReadError, b1)"
    and "serve s (length (requests s)) (Some (Range (Some (position r)) None)) = Returns resp"
    and "ContentRange resp = Some cr"
  shows "read sz r s =
     (case body_read sz (Body resp) of
        (Inr binary, b2) \<Rightarrow>
          (Inr binary,
           \<lparr>content_length = Some (cr_length cr),
            position = cr_start cr + int (length binary), body = Some b2\<rparr>,
           s\<lparr>requests := requests s @ [Some (Range (Some (position r)) None)]\<rparr>)
      | (Inl e, b2) \<Rightarrow>
          (Inl e,
           \<lparr>content_length = Some (cr_length cr), position = cr_start cr, body = Some b2\<rparr>,
           s\<lparr>requests := requests s @ [Some (Range (Some (position r)) None)]\<rparr>))"
proof -
  let ?rq = "Some (Range (Some (position r)) None)"
  let ?s1 = "s\<lparr>requests := requests s @ [?rq]\<rparr>"
  let ?r1 = "r\<lparr>body := Some b1\<rparr>"
  let ?r2 = "\<lparr>content_length = Some (cr_length cr), position = cr_start cr,
              body = Some (Body resp)\<rparr>"
  have rfb: "read_from_body sz r = (Inl IncompleteReadError, ?r1)"
    using assms(4,5) by (simp add: read_from_body_def)
  have "get_s3 ?rq s = (Inr resp, ?s1)"
    using assms(6) by (rule get_s3_returns)
  then have ob: "open_body None None ?r1 s = (Inr (), ?r2, ?s1)"
    using assms(7) by (simp add: open_body_def range_string_def)
  have rd: "read sz r s =
      (case read_from_body sz ?r2 of
         (Inl e3, r3) \<Rightarrow> (Inl e3, r3, ?s1)
       | (Inr binary, r3) \<Rightarrow> (Inr binary, advance binary r3, ?s1))"
    using assms(1-4) rfb ob by (simp add: read_def read_opened_def)
  show ?thesis
    unfolding rd by (simp add: read_from_body_def advance_def split: prod.splits sum.splits)
qed

theorem read_retries_incomplete_read_once_witness:
  "read 5 \<lparr>content_length = Some 11, position = 0, body = Some (Stream [] True)\<rparr>
       (object_store ''hello world'' True []) =
     (Inr ''hello'',
      \<lparr>content_length = Some 11, position = 5, body = Some (Stream '' world'' False)\<rparr>,
      \<lparr>serve = serve_object ''hello world'' True [], requests = [Some (Range (Some 0) None)]\<rparr>)
   \<and> read 5 \<lparr>content_length = Some 11, position = 0, body = Some (Stream [] True)\<rparr>
       (object_store ''hello world'' True [0]) =
     (Inl IncompleteReadError,
      \<lparr>content_length = Some 11, position = 0, body = Some (Stream [] True)\<rparr>,
      \<lparr>serve = serve_object ''hello world'' True [0], requests = [Some (Range (Some 0) None)]\<rparr>)"
proof -
  let ?r = "\<lparr>content_length = Some 11, position = 0, body = Some (Stream [] True)\<rparr>"
  let ?cr = "\<lparr>cr_start = 0, cr_stop = 10, cr_length = 11\<rparr>"
  let ?resp = "\<lambda>ds. \<lparr>ContentRange = Some ?cr, ContentLength = Some 11,
                       Body = served_body ds 0 ''hello world''\<rparr>"
  have h1: "content_length ?r = Some 11" "(11::int) \<noteq> 0" "position ?r < 11"
    "body ?r = Some (Stream [] True)"
    by simp_all
  have h2: "body_read 5 (Stream [] True) = (Inl IncompleteReadError, Stream [] True)"
    by (simp add: body_read_def)
  have h3: "serve (object_store ''hello world'' True ds)
              (length (requests (object_store ''hello world'' True ds)))
              (Some (Range (Some (position ?r)) None)) = Returns (?resp ds)" for ds
    by (simp add: store_defs)
  have h4: "ContentRange (?resp ds) = Some ?cr" for ds
    by simp
  show ?thesis
    using read_retries_incomplete_read_once [OF h1 h2 h3 [of "[]"] h4]
      read_retries_incomplete_read_once [OF h1 h2 h3 [of "[0]"] h4]
    by (simp add: store_defs body_read_def)
qed

section \<open>Properties of the retry wrapper\<close>





section \<open>Properties of the multipart writer\<close>

lemma retry_loop_numeral:
  "retry_loop (numeral k) partial secs exc s =
     (case partial s of
        (Inr v, s') \<Rightarrow> (Inr v, s')
      | (Inl e, s') \<Rightarrow>
          if exc e then
            (case time_sleep secs s' of
               (Inl e', s'') \<Rightarrow> (Inl e', s'')
             | (Inr u, s'') \<Rightarrow> retry_loop (pred_numeral k) partial secs exc s'')
          else (Inl e, s'))"
  by (simp add: numeral_eq_Suc)

lemmas writer_defs = MultipartWriter_init_def MultipartWriter_write_def MultipartWriter_close_def
  MultipartWriter_closed_def MultipartWriter_tell_def finish_def upload_next_part_def
  retry_default_def retry_if_failed_def retryable_def UPLOAD_ATTEMPTS_def SLEEP_SECONDS_def
  store_call_def bytes_io_write_def bytes_io_rest_def new_bytes_io_def time_sleep_def
  new_bucket_def reliable_def flaky_def session_def retry_loop_numeral

lemma store_call_ok:
  assumes "answer s (length (calls s)) op = Succeeds t"
  shows "store_call op s = (Inr t, effect op (s\<lparr>calls := calls s @ [op]\<rparr>))"
  using assms by (simp add: store_call_def)

lemma retry_loop_ok:
  assumes "partial s = (Inr v, s')" "0 < n"
  shows "retry_loop n partial secs exc s = (Inr v, s')"
  using assms by (cases n) simp_all

lemma retry_default_ok:
  assumes "partial s = (Inr v, s')"
  shows "retry_default partial s = (Inr v, s')"
  using assms
  by (simp add: retry_default_def retry_if_failed_def retry_loop_ok UPLOAD_ATTEMPTS_def)

lemma answer_effect [simp]: "answer (effect op s) = answer s"
  by (cases op) simp_all

lemma calls_effect [simp]: "calls (effect op s) = calls s"
  by (cases op) simp_all

lemma sleeps_effect [simp]: "sleeps (effect op s) = sleeps s"
  by (cases op) simp_all

lemma always_succeedsD:
  assumes "always_succeeds (answer s)"
  obtains t where "answer s n op = Succeeds (Some t)"
  using assms unfolding always_succeeds_def by blast

lemma reliable_call:
  assumes "always_succeeds (answer s)"
  obtains t where
    "retry_default (store_call op) s = (Inr (Some t), effect op (s\<lparr>calls := calls s @ [op]\<rparr>))"
    "store_call op s = (Inr (Some t), effect op (s\<lparr>calls := calls s @ [op]\<rparr>))"
proof -
  obtain t where t: "answer s (length (calls s)) op = Succeeds (Some t)"
    using assms by (rule always_succeedsD)
  have c: "store_call op s = (Inr (Some t), effect op (s\<lparr>calls := calls s @ [op]\<rparr>))"
    using t by (rule store_call_ok)
  from retry_default_ok [of "store_call op" s, OF c] c show ?thesis by (rule that)
qed

lemma upload_next_part_reliable:
  assumes "always_succeeds (answer s)" "mp w"
  obtains t where
    "upload_next_part w s =
       (Inr (), w\<lparr>parts := parts w @ [(t, total_parts w + 1)],
                   total_parts := total_parts w + 1, buf := new_bytes_io\<rparr>,
        effect (UploadPart (total_parts w + 1) (getvalue (buf w)))
          (s\<lparr>calls := calls s @ [UploadPart (total_parts w + 1) (getvalue (buf w))]\<rparr>))"
proof -
  let ?op = "UploadPart (total_parts w + 1) (getvalue (buf w))"
  obtain t where "retry_default (store_call ?op) s
      = (Inr (Some t), effect ?op (s\<lparr>calls := calls s @ [?op]\<rparr>))"
    using assms(1) by (rule reliable_call)
  then have "upload_next_part w s =
       (Inr (), w\<lparr>parts := parts w @ [(t, total_parts w + 1)],
                   total_parts := total_parts w + 1, buf := new_bytes_io\<rparr>,
        effect ?op (s\<lparr>calls := calls s @ [?op]\<rparr>))"
    using assms(2) by (simp add: upload_next_part_def Let_def bytes_io_rest_def)
  then show ?thesis by (rule that)
qed

lemma bytes_io_write_at_end:
  assumes "tell f = length (getvalue f)"
  shows "bytes_io_write b f = (int (length b), \<lparr>getvalue = getvalue f @ b, tell = length (getvalue f) + length b\<rparr>)"
  using assms by (simp add: bytes_io_write_def)

text \<open>What a write does on a store that answers every call.\<close>

lemma write_reliable:
  assumes "always_succeeds (answer s)" "staged w"
  shows "\<exists>w' s'. MultipartWriter_write b w s = (Inr (int (length b)), w', s')
     \<and> staged w' \<and> answer s' = answer s
     \<and> total_bytes w' = total_bytes w + int (length b)
     \<and> min_part_size w' = min_part_size w \<and> stored s' = stored s
     \<and> (if int (length (getvalue (buf w)) + length b) \<ge> min_part_size w
         then calls s' = calls s @ [UploadPart (total_parts w + 1) (getvalue (buf w) @ b)]
              \<and> uploaded s' = (total_parts w + 1, getvalue (buf w) @ b) # uploaded s
              \<and> getvalue (buf w') = [] \<and> total_parts w' = total_parts w + 1
              \<and> (\<exists>t. parts w' = parts w @ [(t, total_parts w + 1)])
         else calls s' = calls s \<and> uploaded s' = uploaded s
              \<and> getvalue (buf w') = getvalue (buf w) @ b
              \<and> total_parts w' = total_parts w \<and> parts w' = parts w)"
proof -
  let ?f = "\<lparr>getvalue = getvalue (buf w) @ b, tell = length (getvalue (buf w)) + length b\<rparr>"
  let ?w1 = "w\<lparr>buf := ?f, total_bytes := total_bytes w + int (length b)\<rparr>"
  have wr: "bytes_io_write b (buf w) = (int (length b), ?f)"
    using assms(2) by (simp add: staged_def bytes_io_write_at_end)
  show ?thesis
  proof (cases "int (length (getvalue (buf w)) + length b) \<ge> min_part_size w")
    case True
    have "mp ?w1" using assms(2) by (simp add: staged_def)
    with assms(1) obtain t where
      "upload_next_part ?w1 s =
         (Inr (), ?w1\<lparr>parts := parts ?w1 @ [(t, total_parts ?w1 + 1)],
                       total_parts := total_parts ?w1 + 1, buf := new_bytes_io\<rparr>,
          effect (UploadPart (total_parts ?w1 + 1) (getvalue (buf ?w1)))
            (s\<lparr>calls := calls s @ [UploadPart (total_parts ?w1 + 1) (getvalue (buf ?w1))]\<rparr>))"
      by (rule upload_next_part_reliable)
    then show ?thesis
      using True wr assms(2)
      by (simp add: MultipartWriter_write_def staged_def new_bytes_io_def upto_rec2)
  next
    case False
    then show ?thesis
      using wr assms(2) by (simp add: MultipartWriter_write_def staged_def)
  qed
qed

lemma init_reliable:
  assumes "always_succeeds (answer s)"
  shows "MultipartWriter_init mps s =
      (Inr \<lparr>mp = True, min_part_size = mps, buf = new_bytes_io, total_bytes = 0,
             total_parts = 0, parts = []\<rparr>,
       effect InitiateMultipartUpload (s\<lparr>calls := calls s @ [InitiateMultipartUpload]\<rparr>))"
proof -
  obtain t where "retry_default (store_call InitiateMultipartUpload) s
      = (Inr (Some t), effect InitiateMultipartUpload (s\<lparr>calls := calls s @ [InitiateMultipartUpload]\<rparr>))"
    using assms by (rule reliable_call)
  then show ?thesis by (simp add: MultipartWriter_init_def)
qed

lemma init_staged:
  assumes "MultipartWriter_init mps s = (Inr w, s')"
  shows "staged w \<and> total_bytes w = 0 \<and> getvalue (buf w) = [] \<and> min_part_size w = mps
         \<and> total_parts w = 0 \<and> parts w = []"
  using assms
  by (auto simp: MultipartWriter_init_def staged_def new_bytes_io_def
      split: prod.splits sum.splits exn.splits)

lemma assembled_flush:
  assumes "0 \<le> total_parts w" "total_parts w' = total_parts w + 1"
    "uploaded s' = (total_parts w + 1, b) # uploaded s"
  shows "assembled w' s' = assembled w s @ b"
proof -
  have m: "map (part_body ((total_parts w + 1, b) # uploaded s)) [1..total_parts w]
          = map (part_body (uploaded s)) [1..total_parts w]"
    by (intro map_cong) auto
  show ?thesis
    using assms by (simp add: assembled_def upto_rec2 m)
qed

lemma write_reliable_assembled:
  assumes "always_succeeds (answer s)" "staged w"
  shows "\<exists>w' s'. MultipartWriter_write b w s = (Inr (int (length b)), w', s')
     \<and> staged w' \<and> answer s' = answer s
     \<and> total_bytes w' = total_bytes w + int (length b)
     \<and> min_part_size w' = min_part_size w \<and> stored s' = stored s
     \<and> assembled w' s' @ getvalue (buf w') = assembled w s @ getvalue (buf w) @ b"
proof -
  from write_reliable [OF assms, of b] obtain w' s' where
    w: "MultipartWriter_write b w s = (Inr (int (length b)), w', s')"
      "staged w'" "answer s' = answer s" "total_bytes w' = total_bytes w + int (length b)"
      "min_part_size w' = min_part_size w" "stored s' = stored s"
    and c: "if int (length (getvalue (buf w)) + length b) \<ge> min_part_size w
         then uploaded s' = (total_parts w + 1, getvalue (buf w) @ b) # uploaded s
              \<and> getvalue (buf w') = [] \<and> total_parts w' = total_parts w + 1
         else uploaded s' = uploaded s \<and> getvalue (buf w') = getvalue (buf w) @ b
              \<and> total_parts w' = total_parts w"
    by (auto split: if_splits)
  have "assembled w' s' @ getvalue (buf w') = assembled w s @ getvalue (buf w) @ b"
  proof (cases "int (length (getvalue (buf w)) + length b) \<ge> min_part_size w")
    case True
    with c have "assembled w' s' = assembled w s @ (getvalue (buf w) @ b)"
      using assms(2) by (intro assembled_flush) (simp_all add: staged_def)
    with True c show ?thesis by simp
  next
    case False
    with c show ?thesis by (simp add: assembled_def)
  qed
  with w show ?thesis by blast
qed

lemma writes_reliable:
  assumes "always_succeeds (answer s)" "staged w"
  shows "\<exists>w' s'. writes bs w s = (Inr (), w', s')
     \<and> staged w' \<and> answer s' = answer s
     \<and> total_bytes w' = total_bytes w + int (length (concat bs))
     \<and> min_part_size w' = min_part_size w \<and> stored s' = stored s
     \<and> assembled w' s' @ getvalue (buf w') = assembled w s @ getvalue (buf w) @ concat bs"
  using assms
proof (induction bs arbitrary: w s)
  case Nil
  then show ?case by simp
next
  case (Cons b bs)
  from write_reliable_assembled [OF Cons.prems, of b] obtain w1 s1 where
    w: "MultipartWriter_write b w s = (Inr (int (length b)), w1, s1)"
      "staged w1" "answer s1 = answer s" "total_bytes w1 = total_bytes w + int (length b)"
      "min_part_size w1 = min_part_size w" "stored s1 = stored s"
      "assembled w1 s1 @ getvalue (buf w1) = assembled w s @ getvalue (buf w) @ b"
    by blast
  have "always_succeeds (answer s1)" using w(3) Cons.prems(1) by simp
  from Cons.IH [OF this w(2)] obtain w' s' where
    r: "writes bs w1 s1 = (Inr (), w', s')" "staged w'" "answer s' = answer s1"
      "total_bytes w' = total_bytes w1 + int (length (concat bs))"
      "min_part_size w' = min_part_size w1" "stored s' = stored s1"
      "assembled w' s' @ getvalue (buf w') = assembled w1 s1 @ getvalue (buf w1) @ concat bs"
    by blast
  have "assembled w' s' @ getvalue (buf w') = assembled w s @ getvalue (buf w) @ concat (b # bs)"
    using r(7) w(7) by (metis append.assoc concat.simps(2))
  then show ?case using w r by simp
qed

lemma complete_body:
  assumes "map snd ps = [1..n]"
  shows "concat (map (\<lambda>(t, k). part_body ups k) ps) = concat (map (part_body ups) [1..n])"
proof -
  have "map (\<lambda>(t, k). part_body ups k) ps = map (part_body ups) (map snd ps)"
    by (simp add: case_prod_unfold comp_def)
  then show ?thesis using assms by simp
qed

lemma finish_reliable:
  assumes "always_succeeds (answer s)" "mp w" "map snd (parts w) = [1..total_parts w]"
  shows "finish w s =
     (Inr (), w\<lparr>mp := False\<rparr>,
      if total_bytes w \<noteq> 0
      then s\<lparr>calls := calls s @ [CompleteMultipartUpload (parts w)],
             stored := Some (assembled w s), uploaded := []\<rparr>
      else s\<lparr>calls := calls s @ [AbortMultipartUpload, PutObject []],
             uploaded := [], stored := Some []\<rparr>)"
proof (cases "total_bytes w \<noteq> 0")
  case True
  let ?op = "CompleteMultipartUpload (parts w)"
  obtain t where "retry_default (store_call ?op) s
      = (Inr (Some t), effect ?op (s\<lparr>calls := calls s @ [?op]\<rparr>))"
    using assms(1) by (rule reliable_call)
  then show ?thesis
    using True assms(2,3) by (simp add: finish_def assembled_def complete_body)
next
  case False
  let ?s1 = "effect AbortMultipartUpload (s\<lparr>calls := calls s @ [AbortMultipartUpload]\<rparr>)"
  obtain t where a: "store_call AbortMultipartUpload s = (Inr (Some t), ?s1)"
    using assms(1) by (rule reliable_call)
  have "always_succeeds (answer ?s1)" using assms(1) by simp
  then obtain t' where "store_call (PutObject []) ?s1
      = (Inr (Some t'), effect (PutObject []) (?s1\<lparr>calls := calls ?s1 @ [PutObject []]\<rparr>))"
    by (rule reliable_call)
  then show ?thesis
    using False a assms(2) by (simp add: finish_def)
qed

lemma close_reliable:
  assumes "always_succeeds (answer s)" "staged w"
  shows "\<exists>w' s'. MultipartWriter_close w s = (Inr (), w', s') \<and> MultipartWriter_closed w'
     \<and> total_bytes w' = total_bytes w
     \<and> (if total_bytes w = 0
         then calls s' = calls s @ [AbortMultipartUpload, PutObject []]
              \<and> stored s' = Some [] \<and> parts w' = parts w \<and> total_parts w' = total_parts w
         else calls s' = calls s
                @ (if getvalue (buf w) = [] then []
                   else [UploadPart (total_parts w + 1) (getvalue (buf w))])
                @ [CompleteMultipartUpload (parts w')]
              \<and> (if getvalue (buf w) = [] then parts w' = parts w \<and> total_parts w' = total_parts w
                  else (\<exists>t. parts w' = parts w @ [(t, total_parts w + 1)])
                       \<and> total_parts w' = total_parts w + 1)
              \<and> stored s' = Some (assembled w s @ getvalue (buf w)))"
proof (cases "getvalue (buf w) = []")
  case True
  then have "tell (buf w) = 0" using assms(2) by (simp add: staged_def)
  then have "MultipartWriter_close w s = finish w s"
    by (simp add: MultipartWriter_close_def)
  moreover have "mp w" "map snd (parts w) = [1..total_parts w]"
    using assms(2) by (simp_all add: staged_def)
  ultimately show ?thesis
    using finish_reliable [OF assms(1), of w] True
    by (simp add: MultipartWriter_closed_def)
next
  case False
  then have nz: "tell (buf w) \<noteq> 0" "total_bytes w \<noteq> 0"
    using assms(2) by (auto simp: staged_def)
  have st: "mp w" "map snd (parts w) = [1..total_parts w]" "0 \<le> total_parts w"
    using assms(2) by (simp_all add: staged_def)
  let ?op = "UploadPart (total_parts w + 1) (getvalue (buf w))"
  let ?s1 = "effect ?op (s\<lparr>calls := calls s @ [?op]\<rparr>)"
  obtain t where u: "upload_next_part w s =
       (Inr (), w\<lparr>parts := parts w @ [(t, total_parts w + 1)],
                   total_parts := total_parts w + 1, buf := new_bytes_io\<rparr>, ?s1)"
    using assms(1) st(1) by (rule upload_next_part_reliable)
  let ?w1 = "w\<lparr>parts := parts w @ [(t, total_parts w + 1)],
                   total_parts := total_parts w + 1, buf := new_bytes_io\<rparr>"
  have c: "MultipartWriter_close w s = finish ?w1 ?s1"
    using nz u by (simp add: MultipartWriter_close_def)
  have a1: "always_succeeds (answer ?s1)" using assms(1) by simp
  have m1: "mp ?w1" "map snd (parts ?w1) = [1..total_parts ?w1]"
    using st by (simp_all add: upto_rec2)
  have asm: "assembled ?w1 ?s1 = assembled w s @ getvalue (buf w)"
    using st(3) by (intro assembled_flush) simp_all
  show ?thesis
    using finish_reliable [OF a1 m1] nz False asm
    unfolding c by (simp add: MultipartWriter_closed_def)
qed

lemma always_succeeds_reliable: "always_succeeds (answer (new_bucket reliable))"
  by (simp add: always_succeeds_def new_bucket_def reliable_def)

lemma write_flush_iff:
  assumes "always_succeeds (answer s)" "mp w"
  shows "\<exists>w' s'. MultipartWriter_write b w s = (Inr (int (length b)), w', s')
     \<and> calls s' = calls s
          @ (if int (tell (buf w) + length b) \<ge> min_part_size w
             then [UploadPart (total_parts w + 1) (getvalue (snd (bytes_io_write b (buf w))))]
             else [])"
proof -
  obtain f where f: "bytes_io_write b (buf w) = (int (length b), f)"
    and tf: "tell f = tell (buf w) + length b"
    by (simp add: bytes_io_write_def)
  let ?w1 = "w\<lparr>buf := f, total_bytes := total_bytes w + int (length b)\<rparr>"
  show ?thesis
  proof (cases "int (tell (buf w) + length b) \<ge> min_part_size w")
    case True
    have "mp ?w1" using assms(2) by simp
    with assms(1) obtain t where
      "upload_next_part ?w1 s =
         (Inr (), ?w1\<lparr>parts := parts ?w1 @ [(t, total_parts ?w1 + 1)],
                       total_parts := total_parts ?w1 + 1, buf := new_bytes_io\<rparr>,
          effect (UploadPart (total_parts ?w1 + 1) (getvalue (buf ?w1)))
            (s\<lparr>calls := calls s @ [UploadPart (total_parts ?w1 + 1) (getvalue (buf ?w1))]\<rparr>))"
      by (rule upload_next_part_reliable)
    then show ?thesis
      using True by (simp add: MultipartWriter_write_def f tf)
  next
    case False
    then show ?thesis
      by (simp add: MultipartWriter_write_def f tf)
  qed
qed

text \<open>
  The writer's side of closing. On a store that answers every call, the writer can be
  opened and written to, and \<open>close\<close> returns normally with the writer closed. If no byte was written in total
  it aborts the multipart upload and puts an empty body, so that the object exists and is
  empty; otherwise it uploads the staged bytes, if any, as the next part and completes the
  upload with the list of all parts, and the object holds exactly the bytes written.
\<close>

theorem close_puts_empty_or_completes:
  assumes "always_succeeds (answer s0)"
  shows "\<exists>w0 s1 w s w' s'.
      MultipartWriter_init mps s0 = (Inr w0, s1) \<and> writes bs w0 s1 = (Inr (), w, s)
    \<and> total_bytes w = int (length (concat bs))
    \<and> MultipartWriter_close w s = (Inr (), w', s') \<and> MultipartWriter_closed w'
    \<and> (if total_bytes w = 0
        then calls s' = calls s @ [AbortMultipartUpload, PutObject []] \<and> stored s' = Some []
        else calls s' = calls s
               @ (if getvalue (buf w) = [] then []
                  else [UploadPart (total_parts w + 1) (getvalue (buf w))])
               @ [CompleteMultipartUpload (parts w')]
             \<and> (if getvalue (buf w) = [] then parts w' = parts w
                 else \<exists>t. parts w' = parts w @ [(t, total_parts w + 1)])
             \<and> stored s' = Some (concat bs))"
proof -
  let ?w0 = "\<lparr>mp = True, min_part_size = mps, buf = new_bytes_io, total_bytes = 0,
             total_parts = 0, parts = []\<rparr>"
  let ?s1 = "effect InitiateMultipartUpload (s0\<lparr>calls := calls s0 @ [InitiateMultipartUpload]\<rparr>)"
  have i: "MultipartWriter_init mps s0 = (Inr ?w0, ?s1)"
    using assms by (rule init_reliable)
  have st0: "staged ?w0" and a0: "assembled ?w0 ?s1 = []"
    by (simp_all add: staged_def new_bytes_io_def assembled_def)
  have r1: "always_succeeds (answer ?s1)" using assms by simp
  from writes_reliable [OF r1 st0, of bs] obtain w s where
    w: "writes bs ?w0 ?s1 = (Inr (), w, s)" "staged w" "answer s = answer ?s1"
      "total_bytes w = int (length (concat bs))"
      "assembled w s @ getvalue (buf w) = concat bs"
    using a0 by (auto simp: new_bytes_io_def)
  have r2: "always_succeeds (answer s)" using w(3) r1 by simp
  from close_reliable [OF r2 w(2)] obtain w' s' where
    c: "MultipartWriter_close w s = (Inr (), w', s')" "MultipartWriter_closed w'"
     "if total_bytes w = 0
         then calls s' = calls s @ [AbortMultipartUpload, PutObject []]
              \<and> stored s' = Some [] \<and> parts w' = parts w \<and> total_parts w' = total_parts w
         else calls s' = calls s
                @ (if getvalue (buf w) = [] then []
                   else [UploadPart (total_parts w + 1) (getvalue (buf w))])
                @ [CompleteMultipartUpload (parts w')]
              \<and> (if getvalue (buf w) = [] then parts w' = parts w \<and> total_parts w' = total_parts w
                  else (\<exists>t. parts w' = parts w @ [(t, total_parts w + 1)])
                       \<and> total_parts w' = total_parts w + 1)
              \<and> stored s' = Some (assembled w s @ getvalue (buf w))"
    by blast
  have "if total_bytes w = 0
        then calls s' = calls s @ [AbortMultipartUpload, PutObject []] \<and> stored s' = Some []
        else calls s' = calls s
               @ (if getvalue (buf w) = [] then []
                  else [UploadPart (total_parts w + 1) (getvalue (buf w))])
               @ [CompleteMultipartUpload (parts w')]
             \<and> (if getvalue (buf w) = [] then parts w' = parts w
                 else \<exists>t. parts w' = parts w @ [(t, total_parts w + 1)])
             \<and> stored s' = Some (concat bs)"
    using c(3) w(5) by (simp split: if_splits)
  with i w(1,4) c(1,2) show ?thesis by blast
qed

theorem close_puts_empty_or_completes_witness:
  "always_succeeds (answer (new_bucket reliable))
   \<and> (\<exists>w0 s1 w s w' s'.
      MultipartWriter_init 5 (new_bucket reliable) = (Inr w0, s1)
    \<and> writes [''ab'', ''cdef'', ''g''] w0 s1 = (Inr (), w, s)
    \<and> total_bytes w = 7
    \<and> MultipartWriter_close w s = (Inr (), w', s') \<and> MultipartWriter_closed w'
    \<and> stored s' = Some ''abcdefg'')
   \<and> (\<exists>w0 s1 w s w' s'.
      MultipartWriter_init 5 (new_bucket reliable) = (Inr w0, s1)
    \<and> writes [] w0 s1 = (Inr (), w, s)
    \<and> total_bytes w = 0
    \<and> MultipartWriter_close w s = (Inr (), w', s') \<and> MultipartWriter_closed w'
    \<and> calls s' = calls s @ [AbortMultipartUpload, PutObject []] \<and> stored s' = Some [])"
proof -
  have h: "always_succeeds (answer (new_bucket reliable))"
    by (rule always_succeeds_reliable)
  from close_puts_empty_or_completes [OF h, of 5 "[''ab'', ''cdef'', ''g'']"]
  have 1: "\<exists>w0 s1 w s w' s'.
      MultipartWriter_init 5 (new_bucket reliable) = (Inr w0, s1)
    \<and> writes [''ab'', ''cdef'', ''g''] w0 s1 = (Inr (), w, s)
    \<and> total_bytes w = 7
    \<and> MultipartWriter_close w s = (Inr (), w', s') \<and> MultipartWriter_closed w'
    \<and> stored s' = Some ''abcdefg''"
    by (elim exE conjE) (rule exI conjI | simp split: if_splits)+
  from close_puts_empty_or_completes [OF h, of 5 "[]"]
  have 2: "\<exists>w0 s1 w s w' s'.
      MultipartWriter_init 5 (new_bucket reliable) = (Inr w0, s1)
    \<and> writes [] w0 s1 = (Inr (), w, s)
    \<and> total_bytes w = 0
    \<and> MultipartWriter_close w s = (Inr (), w', s') \<and> MultipartWriter_closed w'
    \<and> calls s' = calls s @ [AbortMultipartUpload, PutObject []] \<and> stored s' = Some []"
    by (elim exE conjE) (rule exI conjI | simp split: if_splits)+
  from h 1 2 show ?thesis by blast
qed

text \<open>
  Claim C5. With a minimum part size of 5, three writes of 3 bytes each and a close upload
  exactly two parts, the first two writes as part 1 and the third as part 2, and complete
  the upload with the parts numbered 1 and 2 in that order; \<open>tell()\<close> and the total byte
  count are 9. In general a write uploads a part exactly when the position of the staging
  buffer after the write has reached the minimum part size.
\<close>

theorem three_writes_of_three_bytes:
  assumes "always_succeeds (answer s0)" "length a = 3" "length b = 3" "length c = 3"
  shows "(\<exists>t1 t2 w s'. session 5 [a, b, c] s0 = (Inr (), Some w, s')
       \<and> calls s' = calls s0 @ [InitiateMultipartUpload, UploadPart 1 (a @ b), UploadPart 2 c,
                                 CompleteMultipartUpload [(t1, 1), (t2, 2)]]
       \<and> parts w = [(t1, 1), (t2, 2)] \<and> total_parts w = 2
       \<and> MultipartWriter_tell w = 9 \<and> total_bytes w = 9 \<and> MultipartWriter_closed w)
     \<and> (\<forall>w s x. always_succeeds (answer s) \<and> mp w \<longrightarrow>
          (\<exists>w' s'. MultipartWriter_write x w s = (Inr (int (length x)), w', s')
             \<and> calls s' = calls s
                  @ (if int (tell (buf w) + length x) \<ge> min_part_size w
                     then [UploadPart (total_parts w + 1)
                             (getvalue (snd (bytes_io_write x (buf w))))]
                     else [])))"
proof -
  let ?w0 = "\<lparr>mp = True, min_part_size = 5, buf = new_bytes_io, total_bytes = 0,
             total_parts = 0, parts = []\<rparr>"
  let ?s1 = "effect InitiateMultipartUpload (s0\<lparr>calls := calls s0 @ [InitiateMultipartUpload]\<rparr>)"
  have i: "MultipartWriter_init 5 s0 = (Inr ?w0, ?s1)"
    using assms(1) by (rule init_reliable)
  have st0: "staged ?w0"
    by (simp add: staged_def new_bytes_io_def)
  have r1: "always_succeeds (answer ?s1)" using assms(1) by simp
  from write_reliable [OF r1 st0, of a] assms(2) obtain w1 s1 where
    w1: "MultipartWriter_write a ?w0 ?s1 = (Inr 3, w1, s1)" "staged w1" "answer s1 = answer ?s1"
      "total_bytes w1 = 3" "min_part_size w1 = 5" "calls s1 = calls ?s1"
      "getvalue (buf w1) = a" "total_parts w1 = 0" "parts w1 = []"
    by (auto simp: new_bytes_io_def)
  have r2: "always_succeeds (answer s1)" using w1(3) r1 by simp
  from write_reliable [OF r2 w1(2), of b] assms(2,3) w1 obtain w2 s2 t1 where
    w2: "MultipartWriter_write b w1 s1 = (Inr 3, w2, s2)" "staged w2" "answer s2 = answer s1"
      "total_bytes w2 = 6" "min_part_size w2 = 5" "calls s2 = calls s1 @ [UploadPart 1 (a @ b)]"
      "getvalue (buf w2) = []" "total_parts w2 = 1" "parts w2 = [(t1, 1)]"
    by auto
  have r3: "always_succeeds (answer s2)" using w2(3) r2 by simp
  from write_reliable [OF r3 w2(2), of c] assms(4) w2 obtain w3 s3 where
    w3: "MultipartWriter_write c w2 s2 = (Inr 3, w3, s3)" "staged w3" "answer s3 = answer s2"
      "total_bytes w3 = 9" "min_part_size w3 = 5" "calls s3 = calls s2"
      "getvalue (buf w3) = c" "total_parts w3 = 1" "parts w3 = [(t1, 1)]"
    by auto
  have r4: "always_succeeds (answer s3)" using w3(3) r3 by simp
  have cne: "c \<noteq> []" using assms(4) by auto
  from close_reliable [OF r4 w3(2)] w3 cne obtain w4 s4 t2 where
    w4: "MultipartWriter_close w3 s3 = (Inr (), w4, s4)" "MultipartWriter_closed w4"
      "total_bytes w4 = 9" "parts w4 = [(t1, 1), (t2, 2)]" "total_parts w4 = 2"
      "calls s4 = calls s3 @ [UploadPart 2 c, CompleteMultipartUpload (parts w4)]"
    by auto
  have "session 5 [a, b, c] s0 = (Inr (), Some w4, s4)"
    using i w1(1) w2(1) w3(1) w4(1) by (simp add: session_def)
  moreover have "calls s4 = calls s0 @ [InitiateMultipartUpload, UploadPart 1 (a @ b), UploadPart 2 c,
                                 CompleteMultipartUpload [(t1, 1), (t2, 2)]]"
    using w4(6,4) w3(6) w2(6) w1(6) by simp
  ultimately have scenario: "\<exists>t1 t2 w s'. session 5 [a, b, c] s0 = (Inr (), Some w, s')
       \<and> calls s' = calls s0 @ [InitiateMultipartUpload, UploadPart 1 (a @ b), UploadPart 2 c,
                                 CompleteMultipartUpload [(t1, 1), (t2, 2)]]
       \<and> parts w = [(t1, 1), (t2, 2)] \<and> total_parts w = 2
       \<and> MultipartWriter_tell w = 9 \<and> total_bytes w = 9 \<and> MultipartWriter_closed w"
    using w4 by (auto simp: MultipartWriter_tell_def)
  show ?thesis
    using scenario write_flush_iff by blast
qed

theorem three_writes_of_three_bytes_witness:
  "always_succeeds (answer (new_bucket reliable))
   \<and> length ''abc'' = 3 \<and> length ''def'' = 3 \<and> length ''ghi'' = 3
   \<and> (\<exists>t1 t2 w s'. session 5 [''abc'', ''def'', ''ghi''] (new_bucket reliable) = (Inr (), Some w, s')
       \<and> calls s' = [InitiateMultipartUpload, UploadPart 1 ''abcdef'', UploadPart 2 ''ghi'',
                      CompleteMultipartUpload [(t1, 1), (t2, 2)]]
       \<and> parts w = [(t1, 1), (t2, 2)] \<and> total_parts w = 2
       \<and> MultipartWriter_tell w = 9 \<and> total_bytes w = 9 \<and> MultipartWriter_closed w)
   \<and> (\<exists>w' s'. MultipartWriter_write ''abc''
          \<lparr>mp = True, min_part_size = 5, buf = \<lparr>getvalue = ''xy'', tell = 2\<rparr>, total_bytes = 2,
           total_parts = 0, parts = []\<rparr> (new_bucket reliable) = (Inr 3, w', s')
        \<and> calls s' = [UploadPart 1 ''xyabc''])"
proof -
  have h: "always_succeeds (answer (new_bucket reliable))"
    by (rule always_succeeds_reliable)
  have l: "length ''abc'' = 3" "length ''def'' = 3" "length ''ghi'' = 3"
    by simp_all
  let ?w = "\<lparr>mp = True, min_part_size = 5, buf = \<lparr>getvalue = ''xy'', tell = 2\<rparr>, total_bytes = 2,
           total_parts = 0, parts = []\<rparr>"
  note t = three_writes_of_three_bytes [OF h l]
  have 1: "\<exists>t1 t2 w s'. session 5 [''abc'', ''def'', ''ghi''] (new_bucket reliable) = (Inr (), Some w, s')
       \<and> calls s' = [InitiateMultipartUpload, UploadPart 1 ''abcdef'', UploadPart 2 ''ghi'',
                      CompleteMultipartUpload [(t1, 1), (t2, 2)]]
       \<and> parts w = [(t1, 1), (t2, 2)] \<and> total_parts w = 2
       \<and> MultipartWriter_tell w = 9 \<and> total_bytes w = 9 \<and> MultipartWriter_closed w"
    using t [THEN conjunct1] by (simp add: new_bucket_def)
  have "always_succeeds (answer (new_bucket reliable)) \<and> mp ?w"
    using h by simp
  with t [THEN conjunct2] have "\<exists>w' s'. MultipartWriter_write ''abc'' ?w (new_bucket reliable)
             = (Inr (int (length ''abc'')), w', s')
             \<and> calls s' = calls (new_bucket reliable)
                  @ (if int (tell (buf ?w) + length ''abc'') \<ge> min_part_size ?w
                     then [UploadPart (total_parts ?w + 1)
                             (getvalue (snd (bytes_io_write ''abc'' (buf ?w))))]
                     else [])"
    by blast
  then have 2: "\<exists>w' s'. MultipartWriter_write ''abc'' ?w (new_bucket reliable) = (Inr 3, w', s')
        \<and> calls s' = [UploadPart 1 ''xyabc'']"
    by (simp add: new_bucket_def bytes_io_write_def)
  from h l 1 2 show ?thesis by blast
qed

text \<open>
  Claim C10. After a \<open>close\<close> that returned normally the writer is closed, and a second
  \<open>close\<close> returns normally and changes neither the writer nor the store: no call is
  made, and the parts, the byte count and the part count stay as they are.
\<close>

theorem close_twice_is_noop:
  assumes "MultipartWriter_close w s = (Inr (), w', s')"
  shows "MultipartWriter_closed w' \<and> MultipartWriter_close w' s' = (Inr (), w', s')"
proof -
  have fin: "\<not> mp w2 \<and> buf w2 = buf w1" if "finish w1 s1 = (Inr (), w2, s2)" for w1 s1 w2 s2
    using that by (auto simp: finish_def split: if_splits prod.splits sum.splits)
  have up: "tell (buf w1) = 0" if "upload_next_part w s = (Inr (), w1, s1)" for w1 s1
    using that
    by (auto simp: upload_next_part_def Let_def new_bytes_io_def
        split: if_splits prod.splits sum.splits option.splits)
  have "\<not> mp w' \<and> tell (buf w') = 0"
  proof (cases "tell (buf w) \<noteq> 0")
    case True
    then obtain w1 s1 where u: "upload_next_part w s = (Inr (), w1, s1)"
      and f: "finish w1 s1 = (Inr (), w', s')"
      using assms by (auto simp: MultipartWriter_close_def split: prod.splits sum.splits)
    show ?thesis using up [OF u] fin [OF f] by simp
  next
    case False
    then have "finish w s = (Inr (), w', s')"
      using assms by (simp add: MultipartWriter_close_def)
    from fin [OF this] False show ?thesis by simp
  qed
  then show ?thesis
    by (simp add: MultipartWriter_closed_def MultipartWriter_close_def finish_def)
qed

theorem close_twice_is_noop_witness:
  "MultipartWriter_close
      \<lparr>mp = True, min_part_size = 5, buf = \<lparr>getvalue = ''abc'', tell = 3\<rparr>, total_bytes = 3,
       total_parts = 0, parts = []\<rparr> (new_bucket reliable)
     = (Inr (),
        \<lparr>mp = False, min_part_size = 5, buf = \<lparr>getvalue = [], tell = 0\<rparr>, total_bytes = 3,
         total_parts = 1, parts = [(''etag'', 1)]\<rparr>,
        \<lparr>answer = reliable,
         calls = [UploadPart 1 ''abc'', CompleteMultipartUpload [(''etag'', 1)]],
         sleeps = [], uploaded = [], stored = Some ''abc''\<rparr>)
   \<and> MultipartWriter_closed
        \<lparr>mp = False, min_part_size = 5, buf = \<lparr>getvalue = [], tell = 0\<rparr>, total_bytes = 3,
         total_parts = 1, parts = [(''etag'', 1)]\<rparr>
   \<and> MultipartWriter_close
        \<lparr>mp = False, min_part_size = 5, buf = \<lparr>getvalue = [], tell = 0\<rparr>, total_bytes = 3,
         total_parts = 1, parts = [(''etag'', 1)]\<rparr>
        \<lparr>answer = reliable,
         calls = [UploadPart 1 ''abc'', CompleteMultipartUpload [(''etag'', 1)]],
         sleeps = [], uploaded = [], stored = Some ''abc''\<rparr>
     = (Inr (),
        \<lparr>mp = False, min_part_size = 5, buf = \<lparr>getvalue = [], tell = 0\<rparr>, total_bytes = 3,
         total_parts = 1, parts = [(''etag'', 1)]\<rparr>,
        \<lparr>answer = reliable,
         calls = [UploadPart 1 ''abc'', CompleteMultipartUpload [(''etag'', 1)]],
         sleeps = [], uploaded = [], stored = Some ''abc''\<rparr>)"
proof -
  have h: "MultipartWriter_close
      \<lparr>mp = True, min_part_size = 5, buf = \<lparr>getvalue = ''abc'', tell = 3\<rparr>, total_bytes = 3,
       total_parts = 0, parts = []\<rparr> (new_bucket reliable)
     = (Inr (),
        \<lparr>mp = False, min_part_size = 5, buf = \<lparr>getvalue = [], tell = 0\<rparr>, total_bytes = 3,
         total_parts = 1, parts = [(''etag'', 1)]\<rparr>,
        \<lparr>answer = reliable,
         calls = [UploadPart 1 ''abc'', CompleteMultipartUpload [(''etag'', 1)]],
         sleeps = [], uploaded = [], stored = Some ''abc''\<rparr>)"
    by (simp add: writer_defs)
  from close_twice_is_noop [OF h] h show ?thesis by simp
qed

section \<open>Properties of the buffered reader\<close>

text \<open>After a raw read that returned, the content length is known.\<close>

lemma open_body_Inr_content_length:
  assumes "open_body start stop r s = (Inr u, r', s')"
  shows "content_length r' \<noteq> None"
  using assms
  by (auto simp: open_body_def at_eof_def split: prod.splits sum.splits option.splits if_splits)

lemma read_from_body_content_length:
  assumes "read_from_body sz r = (res, r')"
  shows "content_length r' = content_length r"
  using assms by (auto simp: read_from_body_def split: option.splits prod.splits)

lemma read_opened_Inr_content_length:
  assumes "read_opened sz r s = (Inr x, r', s')"
  shows "content_length r' \<noteq> None"
proof (cases "content_length r")
  case None
  then show ?thesis using assms by (simp add: read_opened_def)
next
  case (Some cl)
  show ?thesis
  proof (cases "cl = 0 \<or> position r \<ge> cl")
    case True
    then show ?thesis using assms Some by (auto simp: read_opened_def split: if_splits)
  next
    case False
    obtain res r1 where f: "read_from_body sz r = (res, r1)"
      by (cases "read_from_body sz r") auto
    have c1: "content_length r1 = Some cl"
      using read_from_body_content_length [OF f] Some by simp
    show ?thesis
    proof (cases res)
      case (Inr binary)
      then show ?thesis
        using assms Some False f c1 by (auto simp: read_opened_def advance_def)
    next
      case (Inl e)
      show ?thesis
      proof (cases "e = IncompleteReadError")
        case False
        with Inl show ?thesis
          using assms Some \<open>\<not> (cl = 0 \<or> position r \<ge> cl)\<close> f by (auto simp: read_opened_def)
      next
        case True
        obtain res2 r2 s2 where o: "open_body None None r1 s = (res2, r2, s2)"
          by (cases "open_body None None r1 s") auto
        obtain res3 r3 where g: "read_from_body sz r2 = (res3, r3)"
          by (cases "read_from_body sz r2") auto
        from assms Some \<open>\<not> (cl = 0 \<or> position r \<ge> cl)\<close> f Inl True o g
        obtain u where u: "res2 = Inr u" "res3 = Inr x" "r' = advance x r3"
          by (auto simp: read_opened_def split: sum.splits)
        have "content_length r2 \<noteq> None"
          using o u(1) open_body_Inr_content_length by simp
        then show ?thesis
          using read_from_body_content_length [OF g] u(3) by (simp add: advance_def)
      qed
    qed
  qed
qed

lemma read_Inr_content_length:
  assumes "read sz r s = (Inr x, r', s')"
  shows "content_length r' \<noteq> None"
  using assms read_opened_Inr_content_length
  by (auto simp: read_def split: if_splits prod.splits sum.splits)

text \<open>
  The buffered reader on an empty object: construction succeeds and leaves the reader at
  the end; a sized read returns no bytes, while a read of everything reaches the raw
  reader's \<open>assert self._content_length\<close> with the length 0.
\<close>

lemma Reader_read_empty_object:
  "(case Reader_init 4 [CHR 0x0A] False (object_store [] True []) of
      (res, rd, s) \<Rightarrow>
        res = Inr () \<and> eof rd \<and> Reader_tell rd = 0
        \<and> fst (Reader_read 5 rd s) = Inr []
        \<and> fst (Reader_read (-1) rd s) = Inl AssertionError)"
  by (simp add: Reader_init_def Reader_seek_def Reader_read_def Reader_tell_def ByteBuffer_def
      buffer_empty_def buffer_len_def buffer_read_def read_from_buffer_def
      raw_defs store_defs whence_defs Let_def)

lemma find_bytes_Some:
  assumes "find_bytes t xs = Some i"
  shows "take (i + length t) xs = take i xs @ t \<and> i + length t \<le> length xs"
  using assms
proof (induction xs arbitrary: i)
  case Nil
  then show ?case by (simp split: if_splits)
next
  case (Cons x xs)
  show ?case
  proof (cases "prefix t (x # xs)")
    case True
    then have "i = 0" using Cons.prems by simp
    moreover from True obtain zs where "x # xs = t @ zs" by (auto simp: prefix_def)
    ultimately show ?thesis by simp
  next
    case False
    then obtain j where j: "find_bytes t xs = Some j" "i = Suc j"
      using Cons.prems by auto
    from Cons.IH [OF j(1)] j(2) show ?thesis by simp
  qed
qed

lemma fill_loop_terminator:
  "fill_loop sz rd s = (res, rd', s') \<Longrightarrow> line_terminator rd' = line_terminator rd"
proof (induction sz rd s arbitrary: res rd' s' rule: fill_loop.induct)
  case (1 sz rd s)
  note step = fill_loop.simps [of sz rd s]
  show ?case
  proof (cases "buffer_len (buffer rd) < sz \<and> \<not> eof rd")
    case False
    have "fill_loop sz rd s = (Inr (), rd, s)"
      by (simp only: step False if_False)
    then show ?thesis using "1.prems" by simp
  next
    case True
    obtain r rd1 s1 where f: "fill_once rd s = (r, rd1, s1)"
      by (cases "fill_once rd s") auto
    then have lt: "line_terminator rd1 = line_terminator rd"
      by (auto simp: fill_once_def split: prod.splits)
    show ?thesis
    proof (cases r)
      case (Inl e)
      then show ?thesis using "1.prems" True f lt by (simp add: step)
    next
      case (Inr n)
      show ?thesis
      proof (cases "n = 0")
        case z: True
        have "fill_loop sz (rd1\<lparr>eof := True\<rparr>) s1 = (res, rd', s')"
          using "1.prems" True f Inr z by (simp add: step)
        from "1.IH"(1) [OF True f [symmetric] Inr refl z this] lt
        show ?thesis by simp
      next
        case nz: False
        have "fill_loop sz rd1 s1 = (res, rd', s')"
          using "1.prems" True f Inr nz by (simp add: step)
        from "1.IH"(2) [OF True f [symmetric] Inr refl nz this] lt
        show ?thesis by simp
      qed
    qed
  qed
qed

lemma readline_loop_result:
  assumes "readline_loop fuel line rd s = Some (Inr l, rd', s')"
  shows "suffix (line_terminator rd) l \<or> (eof rd' \<and> held (buffer rd') = [])"
  using assms
proof (induction fuel arbitrary: line rd s)
  case 0
  then show ?case by simp
next
  case (Suc fuel)
  show ?case
  proof (cases "eof rd \<and> buffer_len (buffer rd) = 0")
    case True
    then show ?thesis using Suc.prems by (simp add: buffer_len_def)
  next
    case False
    obtain line_part b' where rl: "buffer_readline (line_terminator rd) (buffer rd) = (line_part, b')"
      by (cases "buffer_readline (line_terminator rd) (buffer rd)") auto
    let ?rd1 = "rd\<lparr>buffer := b', current_pos := current_pos rd + int (length line_part)\<rparr>"
    show ?thesis
    proof (cases "suffix (line_terminator rd) line_part")
      case True
      then have "l = line @ line_part"
        using Suc.prems False rl by simp
      with True show ?thesis by (simp add: suffix_appendI)
    next
      case nosuf: False
      obtain r rd2 s2 where fb: "fill_buffer (-1) ?rd1 s = (r, rd2, s2)"
        by (cases "fill_buffer (-1) ?rd1 s") auto
      then have lt: "line_terminator rd2 = line_terminator rd"
        using fill_loop_terminator [of _ ?rd1 s r rd2 s2] by (simp add: fill_buffer_def)
      show ?thesis
      proof (cases r)
        case (Inl e)
        then show ?thesis using Suc.prems False rl nosuf fb by simp
      next
        case (Inr u)
        then have "readline_loop fuel (line @ line_part) rd2 s2 = Some (Inr l, rd', s')"
          using Suc.prems False rl nosuf fb by simp
        from Suc.IH [OF this] lt show ?thesis by simp
      qed
    qed
  qed
qed

text \<open>
  For any terminator: a limit other than -1 raises at once; a line that is returned ends
  with the terminator unless the end of the stream was reached; and a terminator that
  already lies in the buffer ends the line at its first occurrence there.
\<close>

lemma readline_any_terminator:
  "(limit \<noteq> -1 \<longrightarrow> Reader_readline fuel limit rd s = Some (Inl NotImplementedError, rd, s))
   \<and> (Reader_readline fuel (-1) rd s = Some (Inr line, rd', s') \<longrightarrow>
        suffix (line_terminator rd) line \<or> (eof rd' \<and> held (buffer rd') = []))
   \<and> (find_bytes (line_terminator rd) (held (buffer rd)) = Some i \<longrightarrow>
        Reader_readline (Suc fuel) (-1) rd s =
          Some (Inr (take i (held (buffer rd)) @ line_terminator rd),
                rd\<lparr>buffer := (buffer rd)\<lparr>held := drop (i + length (line_terminator rd))
                                                    (held (buffer rd))\<rparr>,
                   current_pos := current_pos rd + int (i + length (line_terminator rd))\<rparr>,
                s))"
proof (intro conjI impI)
  assume "limit \<noteq> -1"
  then show "Reader_readline fuel limit rd s = Some (Inl NotImplementedError, rd, s)"
    by (simp add: Reader_readline_def)
next
  assume "Reader_readline fuel (-1) rd s = Some (Inr line, rd', s')"
  then have "readline_loop fuel [] rd s = Some (Inr line, rd', s')"
    by (simp add: Reader_readline_def)
  then show "suffix (line_terminator rd) line \<or> (eof rd' \<and> held (buffer rd') = [])"
    by (rule readline_loop_result)
next
  let ?t = "line_terminator rd" and ?xs = "held (buffer rd)"
  assume f: "find_bytes ?t ?xs = Some i"
  have tk: "take (i + length ?t) ?xs = take i ?xs @ ?t" and le: "i + length ?t \<le> length ?xs"
    using find_bytes_Some [OF f] by simp_all
  have len: "length (take i ?xs @ ?t) = i + length ?t"
    using le by simp
  have "buffer_readline ?t (buffer rd) = buffer_read (int (i + length ?t)) (buffer rd)"
    by (simp only: buffer_readline_def f option.case)
  also have "\<dots> = (take (i + length ?t) ?xs, (buffer rd)\<lparr>held := drop (i + length ?t) ?xs\<rparr>)"
    by (simp only: buffer_read_def nat_int)
  finally have rl: "buffer_readline ?t (buffer rd) =
      (take i ?xs @ ?t, (buffer rd)\<lparr>held := drop (i + length ?t) ?xs\<rparr>)"
    by (simp only: tk)
  show "Reader_readline (Suc fuel) (-1) rd s =
          Some (Inr (take i ?xs @ ?t),
                rd\<lparr>buffer := (buffer rd)\<lparr>held := drop (i + length ?t) ?xs\<rparr>,
                   current_pos := current_pos rd + int (i + length ?t)\<rparr>, s)"
  proof (cases "eof rd \<and> buffer_len (buffer rd) = 0")
    case True
    then have e: "?xs = []" by (simp add: buffer_len_def)
    with f have "?t = []" "i = 0" by (simp_all split: if_splits)
    with e True show ?thesis by (simp add: Reader_readline_def)
  next
    case False
    have sf: "suffix ?t (take i ?xs @ ?t)"
      by (simp add: suffix_def)
    have "Reader_readline (Suc fuel) (-1) rd s = readline_loop (Suc fuel) [] rd s"
      by (simp add: Reader_readline_def)
    also have "\<dots> =
        (let (line_part, b') = buffer_readline ?t (buffer rd);
             line' = [] @ line_part;
             rd1 = rd\<lparr>buffer := b', current_pos := current_pos rd + int (length line_part)\<rparr>
         in if suffix ?t line_part then Some (Inr line', rd1, s)
            else
              (case fill_buffer (-1) rd1 s of
                 (Inl e, rd2, s2) \<Rightarrow> Some (Inl e, rd2, s2)
               | (Inr u, rd2, s2) \<Rightarrow> readline_loop fuel line' rd2 s2))"
      by (simp only: readline_loop.simps False if_False)
    also have "\<dots> = Some (Inr (take i ?xs @ ?t),
                rd\<lparr>buffer := (buffer rd)\<lparr>held := drop (i + length ?t) ?xs\<rparr>,
                   current_pos := current_pos rd + int (i + length ?t)\<rparr>, s)"
      by (simp only: rl Let_def prod.case sf if_True len append_Nil)
    finally show ?thesis .
  qed
qed

text \<open>Lines of a stream, and what the buffer's \<open>readline\<close> returns for a one-byte terminator.\<close>

lemma first_line_Nil [simp]: "first_line c [] = []"
  by (simp add: first_line_def)

lemma first_line_Cons [simp]:
  "first_line c (x # xs) = (if x = c then [c] else x # first_line c xs)"
  by (simp add: first_line_def)



















text \<open>
  Claim C9. \<open>read(0)\<close> returns no bytes and changes neither the reader (position, buffer
  and end flag included) nor the store, whose request log stays as it is; this holds for a
  reader constructed with the deferred seek, which has made no request, as for any other.
\<close>

theorem read_zero_changes_nothing:
  "Reader_read 0 rd s = (Inr [], rd, s)
   \<and> (case Reader_init buffer_size terminator True s of
        (res, rd0, s0) \<Rightarrow> res = Inr () \<and> s0 = s \<and> Reader_read 0 rd0 s0 = (Inr [], rd0, s))"
  by (simp add: Reader_read_def Reader_init_def Let_def)

section \<open>Writing nothing and reading it back\<close>

text \<open>
  Claim C4. Closing a writer to which no byte was written aborts the multipart upload and
  puts an empty body, without an error, and the object exists; a full read of it should
  then return zero bytes. It does not: the object is empty, so its known length is 0, and
  \<open>Reader.read()\<close> ends in \<open>AssertionError\<close> at the raw reader's
  \<open>assert self._content_length\<close>, whether the reader seeks at construction or defers
  it, and whether or not the store echoes the size. This is the defect of claim C1.
\<close>

theorem empty_write_read_back_asserts:
  "(case session 5 [] (new_bucket reliable) of
      (r, w, s) \<Rightarrow>
        r = Inr () \<and> stored s = Some []
        \<and> calls s = [InitiateMultipartUpload, AbortMultipartUpload, PutObject []]
        \<and> (case Reader_init 4 [CHR 0x0A] False (written_object True s) of
              (res, rd, g) \<Rightarrow> res = Inr () \<and> fst (Reader_read (-1) rd g) = Inl AssertionError)
        \<and> (case Reader_init 4 [CHR 0x0A] True (written_object True s) of
              (res, rd, g) \<Rightarrow> res = Inr () \<and> fst (Reader_read (-1) rd g) = Inl AssertionError)
        \<and> (case Reader_init 4 [CHR 0x0A] False (written_object False s) of
              (res, rd, g) \<Rightarrow> res = Inr () \<and> fst (Reader_read (-1) rd g) = Inl AssertionError))"
  by (simp add: writer_defs reader_defs written_object_def raw_defs store_defs whence_defs Let_def)

text \<open>An object that is not empty is read back as written.\<close>

lemma nonempty_write_read_back:
  "(case session 5 [''ab'', ''cdef'', ''g''] (new_bucket reliable) of
      (r, w, s) \<Rightarrow>
        r = Inr () \<and> stored s = Some ''abcdefg''
        \<and> (case Reader_init 4 [CHR 0x0A] False (written_object True s) of
              (res, rd, g) \<Rightarrow> res = Inr () \<and> fst (Reader_read (-1) rd g) = Inr ''abcdefg''))"
  by (simp add: writer_defs reader_defs written_object_def raw_defs store_defs whence_defs Let_def)

section \<open>Properties of the bucket iteration\<close>

lemma consume_successes:
  assumes "k < l"
  shows "consume (Some l) k (map (\<lambda>p. Inr (Some p)) ps)
           = (take (nat (l - k)) ps, None, min (length ps) (nat (l - k)))"
  using assms
proof (induction ps arbitrary: k)
  case Nil
  then show ?case by simp
next
  case (Cons p ps)
  show ?case
  proof (cases "k + 1 \<ge> l")
    case True
    with Cons.prems have "nat (l - k) = Suc 0" by simp
    with True show ?thesis by simp
  next
    case False
    then have "k + 1 < l" by simp
    from Cons.IH [OF this] have
      "consume (Some l) (k + 1) (map (\<lambda>p. Inr (Some p)) ps)
           = (take (nat (l - (k + 1))) ps, None, min (length ps) (nat (l - (k + 1))))" .
    moreover have "nat (l - k) = Suc (nat (l - (k + 1)))" using False by simp
    ultimately show ?thesis using False by simp
  qed
qed

lemma listing_two_pages:
  "list_bucket 2 two_pages (case None of None \<Rightarrow> accept_all | Some p \<Rightarrow> p) None
     = Some (ten_keys, None)"
  by (simp add: numeral_2_eq_2 two_pages_def truthy_def ten_keys_def accept_all_def)

lemma download_fetch_twice:
  "download_key fetch_twice k (Some ''bucket'') 3 = Inr (Some (k, k @ ''!''))"
  by (simp add: download_key_def fetch_twice_def numeral_eq_Suc)

text \<open>
  Claim C7. For a bucket whose listing yields ten distinct accepted keys, all of which
  download, \<open>iter_bucket\<close> with \<open>key_limit = 3\<close> yields exactly three pairs with
  distinct keys of the bucket, each with the content downloaded for its key, whatever the
  number of workers and whatever the order in which the pool delivers; it takes exactly
  three results from the pool and leaves the \<open>with\<close> block that owns the pool.
\<close>

theorem iter_bucket_key_limit:
  assumes listing: "list_bucket fuel list_objects_v2
             (case accept_key of None \<Rightarrow> accept_all | Some p \<Rightarrow> p) None = Some (keys, None)"
    and ten: "length keys = 10" and dist: "distinct keys"
    and dl: "\<forall>k \<in> set keys. \<exists>c. download_key download_fileobj k bucket_name retries = Inr (Some (k, c))"
    and pool: "\<forall>xs. mset (imap_unordered workers xs) = mset xs"
  shows "\<exists>it. iter_bucket fuel list_objects_v2 download_fileobj imap_unordered
                 bucket_name accept_key (Some 3) workers retries = Some it
          \<and> length (yielded it) = 3 \<and> distinct (map fst (yielded it))
          \<and> set (map fst (yielded it)) \<subseteq> set keys
          \<and> (\<forall>(k, c) \<in> set (yielded it).
                download_key download_fileobj k bucket_name retries = Inr (Some (k, c)))
          \<and> raised it = None \<and> pulled it = 3 \<and> pool_terminated it"
proof -
  let ?d = "\<lambda>k. download_key download_fileobj k bucket_name retries"
  let ?tasks = "map ?d keys"
  let ?results = "imap_unordered workers ?tasks"
  let ?ps = "map the_pair ?results"
  have m: "mset ?results = mset ?tasks" using pool by simp
  then have s: "set ?results = set ?tasks" by (rule mset_eq_setD)
  have ok: "r = Inr (Some (the_pair r)) \<and> fst (the_pair r) \<in> set keys \<and> ?d (fst (the_pair r)) = r"
    if "r \<in> set ?results" for r
  proof -
    from that s obtain k where k: "k \<in> set keys" "r = ?d k" by auto
    with dl obtain c where "?d k = Inr (Some (k, c))" by blast
    with k show ?thesis by simp
  qed
  have res: "?results = map (\<lambda>p. Inr (Some p)) ?ps"
    using ok by (simp add: map_idI)
  have "mset (map fst ?ps) = image_mset (\<lambda>r. fst (the_pair r)) (mset ?results)"
    by (simp add: comp_def)
  also have "\<dots> = image_mset (\<lambda>r. fst (the_pair r)) (mset ?tasks)"
    by (simp only: m)
  also have "\<dots> = mset (map (\<lambda>k. fst (the_pair (?d k))) keys)"
    by (simp add: image_mset.compositionality comp_def)
  also have "map (\<lambda>k. fst (the_pair (?d k))) keys = keys"
  proof (rule map_idI)
    fix k assume "k \<in> set keys"
    with dl obtain c where "?d k = Inr (Some (k, c))" by blast
    then show "fst (the_pair (?d k)) = k" by simp
  qed
  finally have mk: "mset (map fst ?ps) = mset keys" .
  then have dps: "distinct (map fst ?ps)" and lps: "length ?ps = 10"
    and sps: "set (map fst ?ps) = set keys"
    using dist ten
    by (metis mset_eq_imp_distinct_iff, metis length_map mset_eq_length, metis mset_eq_setD)
  have c: "consume (Some 3) 0 ?results = (take 3 ?ps, None, 3)"
  proof -
    have "consume (Some 3) 0 (map (\<lambda>p. Inr (Some p)) ?ps)
            = (take (nat (3 - 0)) ?ps, None, min (length ?ps) (nat (3 - 0)))"
      by (rule consume_successes) simp
    then show ?thesis using lps res by simp
  qed
  let ?it = "\<lparr>yielded = take 3 ?ps, raised = None, pulled = 3, pool_terminated = True\<rparr>"
  have "iter_bucket fuel list_objects_v2 download_fileobj imap_unordered
          bucket_name accept_key (Some 3) workers retries = Some ?it"
    using listing c by (simp add: iter_bucket_def)
  moreover have "length (take 3 ?ps) = 3" using lps by simp
  moreover have "distinct (map fst (take 3 ?ps))"
    using dps by (simp add: take_map [symmetric] del: map_map)
  moreover have "set (map fst (take 3 ?ps)) \<subseteq> set keys"
    using sps by (metis set_take_subset take_map)
  moreover have "\<forall>(k, c) \<in> set (take 3 ?ps). ?d k = Inr (Some (k, c))"
  proof -
    {
      fix k c assume "(k, c) \<in> set (take 3 ?ps)"
      then have "(k, c) \<in> set ?ps" by (rule in_set_takeD)
      then obtain r where r: "r \<in> set ?results" "the_pair r = (k, c)" by auto
      from ok [OF r(1)] r(2) have "?d k = Inr (Some (k, c))" by simp
    }
    then show ?thesis by blast
  qed
  ultimately show ?thesis by simp
qed

theorem iter_bucket_key_limit_witness:
  "list_bucket 2 two_pages (case None of None \<Rightarrow> accept_all | Some p \<Rightarrow> p) None
     = Some (ten_keys, None)
   \<and> length ten_keys = 10 \<and> distinct ten_keys
   \<and> (\<exists>it. iter_bucket 2 two_pages fetch_twice last_first (Some ''bucket'') None (Some 3) 4 3
               = Some it
          \<and> length (yielded it) = 3 \<and> distinct (map fst (yielded it))
          \<and> raised it = None \<and> pulled it = 3 \<and> pool_terminated it)
   \<and> iter_bucket 2 two_pages fetch_twice last_first (Some ''bucket'') None (Some 3) 4 3
        = Some \<lparr>yielded = [(''k9'', ''k9!''), (''k8'', ''k8!''), (''k7'', ''k7!'')],
                raised = None, pulled = 3, pool_terminated = True\<rparr>"
proof -
  have h1: "list_bucket 2 two_pages (case None of None \<Rightarrow> accept_all | Some p \<Rightarrow> p) None
     = Some (ten_keys, None)"
    by (rule listing_two_pages)
  have h2: "length ten_keys = 10" and h3: "distinct ten_keys"
    by (simp_all add: ten_keys_def)
  have h4: "\<forall>k \<in> set ten_keys. \<exists>c. download_key fetch_twice k (Some ''bucket'') 3 = Inr (Some (k, c))"
    by (simp add: download_fetch_twice)
  have h5: "\<forall>xs. mset (last_first 4 xs) = mset xs"
    by (simp add: last_first_def)
  have e: "iter_bucket 2 two_pages fetch_twice last_first (Some ''bucket'') None (Some 3) 4 3
        = Some \<lparr>yielded = [(''k9'', ''k9!''), (''k8'', ''k8!''), (''k7'', ''k7!'')],
                raised = None, pulled = 3, pool_terminated = True\<rparr>"
    using h1 by (simp add: iter_bucket_def download_fetch_twice last_first_def ten_keys_def)
  from iter_bucket_key_limit
         [where accept_key = None and imap_unordered = last_first and workers = 4, OF h1 h2 h3 h4 h5]
       h1 h2 h3 h4 h5 e
  show ?thesis by blast
qed

end
